theory Spec2Isabelle
  imports Complex_Main "HOL-Library.Word" "HOL-Library.Multiset" "HOL-Library.Sublist"
    "HOL-Library.Monad_Syntax"
begin

section \<open>Feature tracker: data model\<close>

text \<open>
  A shallow embedding of \<^verbatim>\<open>vins_estimator/src/featureTracker/feature_tracker.cpp\<close>.

  Conventions of the model.
  \<^item> A \<^verbatim>\<open>cv::Point2f\<close> is a pair of coordinates. The coordinates are real numbers:
    float and double arithmetic is idealised to exact arithmetic, and a computation
    whose C++ value is not a finite number (a division by zero) has no value in the model.
    The one exception is \<^verbatim>\<open>distance\<close>, whose result is compared with a threshold: there
    every operation is rounded as the C++ types prescribe (see below).
  \<^item> A C++ \<^verbatim>\<open>int\<close> is an integer; an increment that would leave the 32-bit signed range
    is undefined behaviour in C++ and has no value in the model.
  \<^item> A \<^verbatim>\<open>std::vector\<close> is a list. \<^verbatim>\<open>v[i]\<close> with \<open>i\<close> out of range is undefined behaviour
    in C++ and has no value in the model.
  \<^item> A function whose C++ execution has no value in the model returns \<open>None\<close>.
  \<^item> A \<^verbatim>\<open>std::map\<close> is a partial function.
  \<^item> OpenCV, CUDA, VPI, the camera model and \<^verbatim>\<open>std::sort\<close> are collaborators whose
    code is not part of this file; they are parameters of the model (record \<open>env\<close>).
  \<^item> Rendering (\<^verbatim>\<open>drawTrack\<close>, \<^verbatim>\<open>imTrack\<close>) and logging are left out.
  \<^item> The class declaration (\<^verbatim>\<open>feature_tracker.h\<close>) and the configuration globals
    (\<^verbatim>\<open>parameters.h\<close>) are not among the sources: the types of the members and of the
    globals are taken from their uses in this file.
\<close>

type_synonym uchar = "8 word"

datatype Point2f = Point2f (px: real) (py: real)

type_synonym Vector3d = "real \<times> real \<times> real"

text \<open>A single-channel 8-bit \<^verbatim>\<open>cv::Mat\<close>: its size and its pixels (row, then column).\<close>

record Mat =
  rows :: int
  cols :: int
  pixel :: "int \<Rightarrow> int \<Rightarrow> uchar"

text \<open>The camera model collaborator (\<^verbatim>\<open>camodocal::CameraPtr\<close>).\<close>

record camera =
  liftProjective :: "Point2f \<Rightarrow> Vector3d"
  spaceToPlane :: "Vector3d \<Rightarrow> Point2f"

text \<open>One observation of the feature report: the camera id and the 7-vector.\<close>

type_synonym observation = "int \<times> real list"

type_synonym featureFrame = "int \<rightharpoonup> observation list"

text \<open>The members of \<^verbatim>\<open>FeatureTracker\<close> that the code of this file reads or writes.\<close>

record tracker =
  row :: int
  col :: int
  mask_m :: Mat
  prev_img :: Mat
  cur_img :: Mat
  n_pts :: "Point2f list"
  predict_pts :: "Point2f list"
  predict_pts_debug :: "Point2f list"
  prev_pts :: "Point2f list"
  cur_pts :: "Point2f list"
  cur_right_pts :: "Point2f list"
  prev_un_pts :: "Point2f list"
  cur_un_pts :: "Point2f list"
  cur_un_right_pts :: "Point2f list"
  pts_velocity :: "Point2f list"
  right_pts_velocity :: "Point2f list"
  ids :: "int list"
  ids_right :: "int list"
  track_cnt :: "int list"
  cur_un_pts_map :: "int \<rightharpoonup> Point2f"
  prev_un_pts_map :: "int \<rightharpoonup> Point2f"
  cur_un_right_pts_map :: "int \<rightharpoonup> Point2f"
  prev_un_right_pts_map :: "int \<rightharpoonup> Point2f"
  prevLeftPtsMap :: "int \<rightharpoonup> Point2f"
  m_camera :: "camera list"
  cur_time :: real
  prev_time :: real
  stereo_cam :: bool
  n_id :: int
  hasPrediction :: bool
  sum_n :: int

text \<open>
  The configuration globals (\<^verbatim>\<open>parameters.h\<close>, C++ \<^verbatim>\<open>int\<close>s tested for being non-zero) and
  the collaborators. \<open>calcOpticalFlowPyrLK prev cur pts seed maxLevel\<close> is the CPU flow
  backend: \<open>seed\<close> is \<open>Some\<close> initial guess when the call passes
  \<^verbatim>\<open>OPTFLOW_USE_INITIAL_FLOW\<close> and \<open>None\<close> otherwise; it returns the new points and
  the status vector. \<open>SparsePyrLK\<close> is the CUDA flow backend with the same interface.
  \<open>std_sort\<close> is \<^verbatim>\<open>std::sort\<close> with the comparator of \<^verbatim>\<open>setMask\<close>; \<open>cv_circle m c r v\<close>
  is \<^verbatim>\<open>cv::circle\<close> drawing a filled disk of colour \<open>v\<close>.
\<close>

record env =
  USE_GPU_ACC_FLOW :: int
  USE_GPU :: int
  USE_VPI :: int
  FLOW_BACK :: int
  MAX_CNT :: int
  MIN_DIST :: int
  calcOpticalFlowPyrLK ::
    "Mat \<Rightarrow> Mat \<Rightarrow> Point2f list \<Rightarrow> Point2f list option \<Rightarrow> int \<Rightarrow> Point2f list \<times> uchar list"
  SparsePyrLK ::
    "Mat \<Rightarrow> Mat \<Rightarrow> Point2f list \<Rightarrow> Point2f list option \<Rightarrow> int \<Rightarrow> Point2f list \<times> uchar list"
  goodFeaturesToTrack :: "Mat \<Rightarrow> int \<Rightarrow> int \<Rightarrow> Mat \<Rightarrow> Point2f list"
  gpuCornersDetector :: "Mat \<Rightarrow> int \<Rightarrow> int \<Rightarrow> Mat \<Rightarrow> Point2f list"
  vpiHarrisCorners :: "Mat \<Rightarrow> Point2f list"
  std_sort :: "(int \<times> Point2f \<times> int) list \<Rightarrow> (int \<times> Point2f \<times> int) list"
  cv_circle :: "Mat \<Rightarrow> int \<times> int \<Rightarrow> int \<Rightarrow> uchar \<Rightarrow> Mat"

section \<open>Free functions and small helpers\<close>

text \<open>
  \<^verbatim>\<open>cvRound\<close> rounds to the nearest integer, ties to the even one (the default rounding
  mode of the conversion instruction it compiles to). The model rounds exactly, without
  the 32-bit range of the result; \<open>inBorder\<close> below gives the same answer for a value
  outside that range, where the hardware conversion yields the smallest \<^verbatim>\<open>int\<close>
  (both fail the lower bound or the upper bound).
\<close>

definition cvRound :: "real \<Rightarrow> int" where
  "cvRound v =
     (let f = \<lfloor>v\<rfloor>; d = v - of_int f
      in if d < 1 / 2 then f else if 1 / 2 < d then f + 1 else if even f then f else f + 1)"

definition inBorder :: "tracker \<Rightarrow> Point2f \<Rightarrow> bool" where
  "inBorder s pt =
     (let BORDER_SIZE = 1; img_x = cvRound (px pt); img_y = cvRound (py pt)
      in BORDER_SIZE \<le> img_x \<and> img_x < col s - BORDER_SIZE \<and>
         BORDER_SIZE \<le> img_y \<and> img_y < row s - BORDER_SIZE)"

text \<open>
  Floating-point operations. A \<^verbatim>\<open>float\<close> is an IEEE 754 binary32 number (24 bits of
  precision, smallest normal exponent -126) and a \<^verbatim>\<open>double\<close> a binary64 number (53
  bits, -1022). An operation returns its exact result rounded to the format, to the
  nearest number and to the even one on a tie; a product and a sum are rounded one after
  the other (no fused multiply-add). \<open>pow2 k\<close> is \<open>2\<^sup>k\<close>; \<open>exponent x\<close> is the exponent of the
  leading bit of \<open>x > 0\<close>; \<open>ieee_round p emin x\<close> rounds \<open>x\<close> to \<open>p\<close> bits, the unit in the
  last place being that of the exponent \<open>emin\<close> for the subnormal numbers. The formats
  have no largest number here: a difference of two \<^verbatim>\<open>float\<close>s beyond the range of
  \<^verbatim>\<open>float\<close> is an infinity in C++ and a large real in the model, and both fail the
  comparison \<^verbatim>\<open><= 0.5\<close> that the result of \<^verbatim>\<open>distance\<close> goes to.
\<close>

definition pow2 :: "int \<Rightarrow> real" where
  "pow2 k = (if 0 \<le> k then 2 ^ nat k else 1 / 2 ^ nat (- k))"

function exponent :: "real \<Rightarrow> int" where
  "exponent x =
     (if x \<le> 0 then 0
      else if x < 1 then exponent (2 * x) - 1
      else if 2 \<le> x then exponent (x / 2) + 1
      else 0)"
  by pat_completeness auto
termination
proof (relation "measure (\<lambda>x. nat \<bar>\<lfloor>log 2 x\<rfloor>\<bar>)")
  show "wf (measure (\<lambda>x. nat \<bar>\<lfloor>log 2 x\<rfloor>\<bar>))" by simp
next
  fix x :: real assume "\<not> x \<le> 0" "x < 1"
  then have x: "0 < x" "x < 1" by simp_all
  have "log 2 (2 * x) = 1 + log 2 x" using x by (simp add: log_mult)
  then have f: "\<lfloor>log 2 (2 * x)\<rfloor> = \<lfloor>log 2 x\<rfloor> + 1" by (simp add: add.commute)
  have "log 2 x < 0" using x by simp
  then have "\<lfloor>log 2 x\<rfloor> < 0" by linarith
  with f have "nat \<bar>\<lfloor>log 2 (2 * x)\<rfloor>\<bar> < nat \<bar>\<lfloor>log 2 x\<rfloor>\<bar>" by linarith
  then show "(2 * x, x) \<in> measure (\<lambda>x. nat \<bar>\<lfloor>log 2 x\<rfloor>\<bar>)" by simp
next
  fix x :: real assume "\<not> x \<le> 0" "\<not> x < 1" "2 \<le> x"
  then have x: "2 \<le> x" by simp
  have "log 2 (x / 2) = log 2 x - 1" using x by (simp add: log_divide)
  then have f: "\<lfloor>log 2 (x / 2)\<rfloor> = \<lfloor>log 2 x\<rfloor> - 1" by simp
  have "1 \<le> log 2 x" using x by (simp add: le_log_iff)
  then have "1 \<le> \<lfloor>log 2 x\<rfloor>" by linarith
  with f have "nat \<bar>\<lfloor>log 2 (x / 2)\<rfloor>\<bar> < nat \<bar>\<lfloor>log 2 x\<rfloor>\<bar>" by linarith
  then show "(x / 2, x) \<in> measure (\<lambda>x. nat \<bar>\<lfloor>log 2 x\<rfloor>\<bar>)" by simp
qed

declare exponent.simps [simp del]

definition round_even :: "real \<Rightarrow> int" where
  "round_even v =
     (let f = \<lfloor>v\<rfloor>; d = v - of_int f
      in if d < 1 / 2 then f else if 1 / 2 < d then f + 1 else if even f then f else f + 1)"

definition ieee_round :: "nat \<Rightarrow> int \<Rightarrow> real \<Rightarrow> real" where
  "ieee_round p emin x =
     (let e = max (exponent \<bar>x\<bar>) emin; ulp = pow2 (e - int p + 1)
      in of_int (round_even (x / ulp)) * ulp)"

definition to_float :: "real \<Rightarrow> real" where
  "to_float = ieee_round 24 (- 126)"

definition to_double :: "real \<Rightarrow> real" where
  "to_double = ieee_round 53 (- 1022)"

text \<open>
  \<^verbatim>\<open>distance\<close>: the two differences are \<^verbatim>\<open>float\<close> subtractions, whose results are
  widened to \<^verbatim>\<open>double\<close> without change; the products, the sum and the square root are
  \<^verbatim>\<open>double\<close> operations.
\<close>

definition distance :: "Point2f \<Rightarrow> Point2f \<Rightarrow> real" where
  "distance pt1 pt2 =
     (let dx = to_float (px pt1 - px pt2); dy = to_float (py pt1 - py pt2)
      in to_double (sqrt (to_double (to_double (dx * dx) + to_double (dy * dy)))))"

text \<open>\<^verbatim>\<open>v[i]\<close> as a value: \<open>None\<close> out of range.\<close>

definition nth_opt :: "'a list \<Rightarrow> nat \<Rightarrow> 'a option" where
  "nth_opt v i = (if i < length v then Some (v ! i) else None)"

text \<open>
  \<^verbatim>\<open>reduceVector(v, status)\<close>: the in-place compaction loop, with the read index \<open>i\<close> and
  the write index \<open>j\<close>, then \<^verbatim>\<open>v.resize(j)\<close>.
\<close>

function reduceVector_loop :: "'a list \<Rightarrow> uchar list \<Rightarrow> nat \<Rightarrow> nat \<Rightarrow> ('a list \<times> nat) option" where
  "reduceVector_loop v status i j =
     (if i < length v then
        (if i < length status then
           (if status ! i \<noteq> 0 then reduceVector_loop (v[j := v ! i]) status (i + 1) (j + 1)
            else reduceVector_loop v status (i + 1) j)
         else None)
      else Some (v, j))"
  by pat_completeness auto
termination
  by (relation "measure (\<lambda>(v, status, i, j). length v - i)") auto

declare reduceVector_loop.simps [simp del]

definition reduceVector :: "'a list \<Rightarrow> uchar list \<Rightarrow> 'a list option" where
  "reduceVector v status = do { (v', j) \<leftarrow> reduceVector_loop v status 0 0; Some (take j v') }"

text \<open>The entries of \<open>v\<close> whose status is non-zero, in their order: what a compaction keeps.\<close>

definition kept :: "'a list \<Rightarrow> uchar list \<Rightarrow> 'a list" where
  "kept v status = map fst (filter (\<lambda>p. snd p \<noteq> 0) (zip v status))"

text \<open>The conversion of a \<^verbatim>\<open>cv::Point2f\<close> to a \<^verbatim>\<open>cv::Point\<close> (\<^verbatim>\<open>saturate_cast\<close>, that is \<^verbatim>\<open>cvRound\<close>).\<close>

definition toPoint :: "Point2f \<Rightarrow> int \<times> int" where
  "toPoint pt = (cvRound (px pt), cvRound (py pt))"

text \<open>\<^verbatim>\<open>m.at<uchar>(p)\<close>: unchecked in a release build, so without a value outside the matrix.\<close>

definition Mat_at :: "Mat \<Rightarrow> int \<times> int \<Rightarrow> uchar option" where
  "Mat_at m p =
     (case p of (x, y) \<Rightarrow>
        if 0 \<le> x \<and> x < cols m \<and> 0 \<le> y \<and> y < rows m then Some (pixel m y x) else None)"

definition Mat_empty :: "Mat \<Rightarrow> bool" where
  "Mat_empty m = (rows m = 0 \<or> cols m = 0)"

definition INT_MAX :: int where
  "INT_MAX = 2147483647"

section \<open>Correspondence propagation\<close>

text \<open>The loop counting the successes of the fast pass.\<close>

fun count_succ :: "uchar list \<Rightarrow> int \<Rightarrow> int" where
  "count_succ [] succ_num = succ_num"
| "count_succ (st # status) succ_num =
     count_succ status (if st \<noteq> 0 then succ_num + 1 else succ_num)"

text \<open>
  The forward pass, for a flow backend \<open>lk\<close>. The CPU arm and the CUDA arm of
  \<^verbatim>\<open>trackImage\<close> have this same structure: with a prediction, a pass seeded with
  \<^verbatim>\<open>predict_pts\<close> at level argument 1, and a second pass at level argument 3 without seed
  when fewer than 10 points succeeded; without prediction, the pass at level argument 3.
\<close>

definition flow_forward ::
  "(Mat \<Rightarrow> Mat \<Rightarrow> Point2f list \<Rightarrow> Point2f list option \<Rightarrow> int \<Rightarrow> Point2f list \<times> uchar list)
    \<Rightarrow> tracker \<Rightarrow> Point2f list \<times> uchar list" where
  "flow_forward lk s =
     (if hasPrediction s then
        (let (cur, status) = lk (prev_img s) (cur_img s) (prev_pts s) (Some (predict_pts s)) 1;
             succ_num = count_succ status 0
         in if succ_num < 10 then lk (prev_img s) (cur_img s) (prev_pts s) None 3
            else (cur, status))
      else lk (prev_img s) (cur_img s) (prev_pts s) None 3)"

text \<open>The loop of the reverse check (\<^verbatim>\<open>&&\<close> evaluates from the left and stops early).\<close>

function flow_back_loop ::
  "uchar list \<Rightarrow> uchar list \<Rightarrow> Point2f list \<Rightarrow> Point2f list \<Rightarrow> nat \<Rightarrow> uchar list option" where
  "flow_back_loop status reverse_status prev reverse_pts i =
     (if i < length status then
        (if status ! i \<noteq> 0 then
           (if i < length reverse_status then
              (if reverse_status ! i \<noteq> 0 then
                 (if i < length prev \<and> i < length reverse_pts then
                    flow_back_loop
                      (status[i := (if distance (prev ! i) (reverse_pts ! i) \<le> 1 / 2 then 1 else 0)])
                      reverse_status prev reverse_pts (i + 1)
                  else None)
               else flow_back_loop (status[i := 0]) reverse_status prev reverse_pts (i + 1))
            else None)
         else flow_back_loop (status[i := 0]) reverse_status prev reverse_pts (i + 1))
      else Some status)"
  by pat_completeness auto
termination
  by (relation "measure (\<lambda>(status, reverse_status, prev, reverse_pts, i). length status - i)") auto

declare flow_back_loop.simps [simp del]

definition reverse_check ::
  "(Mat \<Rightarrow> Mat \<Rightarrow> Point2f list \<Rightarrow> Point2f list option \<Rightarrow> int \<Rightarrow> Point2f list \<times> uchar list)
    \<Rightarrow> tracker \<Rightarrow> Point2f list \<Rightarrow> uchar list \<Rightarrow> uchar list option" where
  "reverse_check lk s cur status =
     (let (reverse_pts, reverse_status) = lk (cur_img s) (prev_img s) cur (Some (prev_pts s)) 1
      in flow_back_loop status reverse_status (prev_pts s) reverse_pts 0)"

text \<open>
  The dispatch on the backend. The VPI arm submits work on VPI's own arrays and writes
  neither \<^verbatim>\<open>cur_pts\<close> nor \<^verbatim>\<open>status\<close>; its reverse check loops over the empty \<^verbatim>\<open>status\<close>.
\<close>

definition optical_flow :: "env \<Rightarrow> tracker \<Rightarrow> (Point2f list \<times> uchar list) option" where
  "optical_flow e s =
     (if \<not> (USE_GPU_ACC_FLOW e \<noteq> 0) then
        (let (cur, status) = flow_forward (calcOpticalFlowPyrLK e) s
         in if FLOW_BACK e \<noteq> 0 then
              do { status' \<leftarrow> reverse_check (calcOpticalFlowPyrLK e) s cur status; Some (cur, status') }
            else Some (cur, status))
      else if USE_GPU_ACC_FLOW e \<noteq> 0 then
        (let (cur, status) = flow_forward (SparsePyrLK e) s
         in if FLOW_BACK e \<noteq> 0 then
              do { status' \<leftarrow> reverse_check (SparsePyrLK e) s cur status; Some (cur, status') }
            else Some (cur, status))
      else if USE_VPI e \<noteq> 0 then Some (cur_pts s, [])
      else Some (cur_pts s, []))"

text \<open>
  The flow backend that the dispatch selects: the first arm is taken when
  \<^verbatim>\<open>USE_GPU_ACC_FLOW\<close> is zero, the second otherwise.
\<close>

definition flow_backend ::
  "env \<Rightarrow> Mat \<Rightarrow> Mat \<Rightarrow> Point2f list \<Rightarrow> Point2f list option \<Rightarrow> int \<Rightarrow> Point2f list \<times> uchar list" where
  "flow_backend e = (if USE_GPU_ACC_FLOW e = 0 then calcOpticalFlowPyrLK e else SparsePyrLK e)"

text \<open>The border loop: a successful point outside the border is marked failed.\<close>

function border_loop :: "tracker \<Rightarrow> Point2f list \<Rightarrow> uchar list \<Rightarrow> nat \<Rightarrow> uchar list option" where
  "border_loop s cur status i =
     (if i < length cur then
        (if i < length status then
           border_loop s cur
             (if status ! i \<noteq> 0 \<and> \<not> inBorder s (cur ! i) then status[i := 0] else status) (i + 1)
         else None)
      else Some status)"
  by pat_completeness auto
termination
  by (relation "measure (\<lambda>(s, cur, status, i). length cur - i)") auto

declare border_loop.simps [simp del]

text \<open>The block of \<^verbatim>\<open>trackImage\<close> under \<^verbatim>\<open>prev_pts.size() > 0\<close>.\<close>

definition propagate :: "env \<Rightarrow> tracker \<Rightarrow> tracker option" where
  "propagate e s = do {
     (cur, status) \<leftarrow> optical_flow e s;
     status' \<leftarrow> border_loop s cur status 0;
     prev' \<leftarrow> reduceVector (prev_pts s) status';
     cur' \<leftarrow> reduceVector cur status';
     ids' \<leftarrow> reduceVector (ids s) status';
     track_cnt' \<leftarrow> reduceVector (track_cnt s) status';
     Some (s\<lparr>prev_pts := prev', cur_pts := cur', ids := ids', track_cnt := track_cnt'\<rparr>)
   }"

section \<open>Ageing, coverage mask, detection and new tracks\<close>

text \<open>\<^verbatim>\<open>for (auto &n : track_cnt) n++;\<close>\<close>

fun incr_all :: "int list \<Rightarrow> int list option" where
  "incr_all [] = Some []"
| "incr_all (n # ns) =
     (if n < INT_MAX then do { ns' \<leftarrow> incr_all ns; Some ((n + 1) # ns') } else None)"

text \<open>The first loop of \<^verbatim>\<open>setMask\<close>: one triple (age, pixel, id) per entry of \<^verbatim>\<open>cur_pts\<close>.\<close>

function collect_loop ::
  "tracker \<Rightarrow> (int \<times> Point2f \<times> int) list \<Rightarrow> nat \<Rightarrow> (int \<times> Point2f \<times> int) list option" where
  "collect_loop s cnt_pts_id i =
     (if i < length (cur_pts s) then
        (if i < length (track_cnt s) \<and> i < length (ids s) then
           collect_loop s (cnt_pts_id @ [(track_cnt s ! i, cur_pts s ! i, ids s ! i)]) (i + 1)
         else None)
      else Some cnt_pts_id)"
  by pat_completeness auto
termination
  by (relation "measure (\<lambda>(s, cnt_pts_id, i). length (cur_pts s) - i)") auto

declare collect_loop.simps [simp del]

text \<open>
  The second loop of \<^verbatim>\<open>setMask\<close>, over the sorted triples: a triple whose pixel of the mask
  is 255 is pushed back and a disk of radius \<^verbatim>\<open>MIN_DIST\<close> and colour 0 is drawn around it.
\<close>

fun mask_walk :: "env \<Rightarrow> (int \<times> Point2f \<times> int) list \<Rightarrow> tracker \<Rightarrow> tracker option" where
  "mask_walk e [] s = Some s"
| "mask_walk e (it # rest) s = do {
     v \<leftarrow> Mat_at (mask_m s) (toPoint (fst (snd it)));
     if v = 255 then
       mask_walk e rest
         (s\<lparr>cur_pts := cur_pts s @ [fst (snd it)],
            ids := ids s @ [snd (snd it)],
            track_cnt := track_cnt s @ [fst it],
            mask_m := cv_circle e (mask_m s) (toPoint (fst (snd it))) (MIN_DIST e) 0\<rparr>)
     else mask_walk e rest s
   }"

definition setMask :: "env \<Rightarrow> tracker \<Rightarrow> tracker option" where
  "setMask e s = do {
     cnt_pts_id \<leftarrow> collect_loop s [] 0;
     mask_walk e (std_sort e cnt_pts_id)
       (s\<lparr>mask_m := \<lparr>rows = row s, cols = col s, pixel = (\<lambda>r c. 255)\<rparr>,
          cur_pts := [], ids := [], track_cnt := []\<rparr>)
   }"

text \<open>
  The dispatch on the corner detector: the new value of \<^verbatim>\<open>n_pts\<close>. The VPI arm appends the
  detected keypoints to \<^verbatim>\<open>n_pts\<close>.
\<close>

definition detect :: "env \<Rightarrow> tracker \<Rightarrow> Point2f list" where
  "detect e s =
     (let n_max_cnt = MAX_CNT e - int (length (cur_pts s))
      in if \<not> (USE_GPU e \<noteq> 0) then
           (if n_max_cnt > 0 then
              goodFeaturesToTrack e (cur_img s) (MAX_CNT e - int (length (cur_pts s))) (MIN_DIST e) (mask_m s)
            else [])
         else if USE_GPU e \<noteq> 0 then
           (if n_max_cnt > 0 then
              (let d_prevPts =
                 gpuCornersDetector e (cur_img s) (MAX_CNT e - int (length (cur_pts s))) (MIN_DIST e) (mask_m s)
               in if d_prevPts \<noteq> [] then d_prevPts else [])
            else [])
         else if USE_VPI e \<noteq> 0 then
           (if n_max_cnt > 0 then n_pts s @ vpiHarrisCorners e (cur_img s) else [])
         else n_pts s)"

fun addPoints_loop :: "Point2f list \<Rightarrow> tracker \<Rightarrow> tracker option" where
  "addPoints_loop [] s = Some s"
| "addPoints_loop (p # ps) s =
     (if n_id s < INT_MAX then
        addPoints_loop ps
          (s\<lparr>cur_pts := cur_pts s @ [p],
             ids := ids s @ [n_id s],
             n_id := n_id s + 1,
             track_cnt := track_cnt s @ [1]\<rparr>)
      else None)"

definition addPoints :: "tracker \<Rightarrow> tracker option" where
  "addPoints s = addPoints_loop (n_pts s) s"

section \<open>Normalised positions and velocity\<close>

fun undistortedPts :: "Point2f list \<Rightarrow> camera \<Rightarrow> Point2f list option" where
  "undistortedPts [] cam = Some []"
| "undistortedPts (p # pts) cam =
     (case liftProjective cam p of (bx, by, bz) \<Rightarrow>
        if bz \<noteq> 0 then do { un_pts \<leftarrow> undistortedPts pts cam; Some (Point2f (bx / bz) (by / bz) # un_pts) }
        else None)"

text \<open>The first loop of \<^verbatim>\<open>ptsVelocity\<close>; \<^verbatim>\<open>std::map::insert\<close> keeps an entry that is already there.\<close>

function insert_loop ::
  "int list \<Rightarrow> Point2f list \<Rightarrow> (int \<rightharpoonup> Point2f) \<Rightarrow> nat \<Rightarrow> (int \<rightharpoonup> Point2f) option" where
  "insert_loop idv pts cur_id_pts i =
     (if i < length idv then
        (if i < length pts then
           insert_loop idv pts
             (case cur_id_pts (idv ! i) of
                None \<Rightarrow> cur_id_pts(idv ! i \<mapsto> pts ! i)
              | Some q \<Rightarrow> cur_id_pts) (i + 1)
         else None)
      else Some cur_id_pts)"
  by pat_completeness auto
termination
  by (relation "measure (\<lambda>(idv, pts, cur_id_pts, i). length idv - i)") auto

declare insert_loop.simps [simp del]

text \<open>The loop of the branch with a non-empty previous map.\<close>

function velocity_loop ::
  "int list \<Rightarrow> Point2f list \<Rightarrow> (int \<rightharpoonup> Point2f) \<Rightarrow> real \<Rightarrow> Point2f list \<Rightarrow> nat \<Rightarrow> Point2f list option" where
  "velocity_loop idv pts prev_id_pts dt velocity i =
     (if i < length pts then
        (if i < length idv then
           (case prev_id_pts (idv ! i) of
              Some q \<Rightarrow>
                (if dt \<noteq> 0 then
                   velocity_loop idv pts prev_id_pts dt
                     (velocity @ [Point2f ((px (pts ! i) - px q) / dt) ((py (pts ! i) - py q) / dt)]) (i + 1)
                 else None)
            | None \<Rightarrow> velocity_loop idv pts prev_id_pts dt (velocity @ [Point2f 0 0]) (i + 1))
         else None)
      else Some velocity)"
  by pat_completeness auto
termination
  by (relation "measure (\<lambda>(idv, pts, prev_id_pts, dt, velocity, i). length pts - i)") auto

declare velocity_loop.simps [simp del]

text \<open>The loop of the other branch: one zero per element of the member \<^verbatim>\<open>cur_pts\<close>.\<close>

fun zero_loop :: "Point2f list \<Rightarrow> Point2f list \<Rightarrow> Point2f list" where
  "zero_loop [] velocity = velocity"
| "zero_loop (p # ps) velocity = zero_loop ps (velocity @ [Point2f 0 0])"

text \<open>\<^verbatim>\<open>ptsVelocity\<close> returns the velocities; the new \<^verbatim>\<open>cur_id_pts\<close> is the second component.\<close>

definition ptsVelocity ::
  "tracker \<Rightarrow> int list \<Rightarrow> Point2f list \<Rightarrow> (int \<rightharpoonup> Point2f) \<Rightarrow> (Point2f list \<times> (int \<rightharpoonup> Point2f)) option" where
  "ptsVelocity s idv pts prev_id_pts = do {
     cur_id_pts \<leftarrow> insert_loop idv pts Map.empty 0;
     velocity \<leftarrow>
       (if prev_id_pts \<noteq> Map.empty then
          (let dt = cur_time s - prev_time s in velocity_loop idv pts prev_id_pts dt [] 0)
        else Some (zero_loop (cur_pts s) []));
     Some (velocity, cur_id_pts)
   }"

section \<open>Stereo correspondence\<close>

text \<open>The loop of the left-right reverse check.\<close>

function stereo_back_loop ::
  "tracker \<Rightarrow> uchar list \<Rightarrow> uchar list \<Rightarrow> Point2f list \<Rightarrow> Point2f list \<Rightarrow> nat \<Rightarrow> uchar list option" where
  "stereo_back_loop s status statusRightLeft right reverseLeftPts i =
     (if i < length status then
        (if status ! i \<noteq> 0 then
           (if i < length statusRightLeft then
              (if statusRightLeft ! i \<noteq> 0 then
                 (if i < length right then
                    (if inBorder s (right ! i) then
                       (if i < length (cur_pts s) \<and> i < length reverseLeftPts then
                          stereo_back_loop s
                            (status[i := (if distance (cur_pts s ! i) (reverseLeftPts ! i) \<le> 1 / 2 then 1 else 0)])
                            statusRightLeft right reverseLeftPts (i + 1)
                        else None)
                     else stereo_back_loop s (status[i := 0]) statusRightLeft right reverseLeftPts (i + 1))
                  else None)
               else stereo_back_loop s (status[i := 0]) statusRightLeft right reverseLeftPts (i + 1))
            else None)
         else stereo_back_loop s (status[i := 0]) statusRightLeft right reverseLeftPts (i + 1))
      else Some status)"
  by pat_completeness auto
termination
  by (relation "measure (\<lambda>(s, status, statusRightLeft, right, reverseLeftPts, i). length status - i)") auto

declare stereo_back_loop.simps [simp del]

text \<open>
  The flow from the left to the right image for a backend \<open>lk\<close> (the CPU arm and the
  CUDA arm have the same structure), with the reverse check when \<^verbatim>\<open>FLOW_BACK\<close> is set.
\<close>

definition stereo_flow ::
  "(Mat \<Rightarrow> Mat \<Rightarrow> Point2f list \<Rightarrow> Point2f list option \<Rightarrow> int \<Rightarrow> Point2f list \<times> uchar list)
    \<Rightarrow> env \<Rightarrow> Mat \<Rightarrow> tracker \<Rightarrow> (Point2f list \<times> uchar list) option" where
  "stereo_flow lk e rightImg s =
     (let (right, status) = lk (cur_img s) rightImg (cur_pts s) None 3
      in if FLOW_BACK e \<noteq> 0 then
           (let (reverseLeftPts, statusRightLeft) = lk rightImg (cur_img s) right None 3
            in do {
                 status' \<leftarrow> stereo_back_loop s status statusRightLeft right reverseLeftPts 0;
                 Some (right, status')
               })
         else Some (right, status))"

text \<open>The block of \<^verbatim>\<open>trackImage\<close> under \<^verbatim>\<open>!_img1.empty() && stereo_cam\<close>.\<close>

definition stereo_stage :: "env \<Rightarrow> Mat \<Rightarrow> tracker \<Rightarrow> tracker option" where
  "stereo_stage e rightImg s0 =
     (let s = s0\<lparr>ids_right := [], cur_right_pts := [], cur_un_right_pts := [],
                 right_pts_velocity := [], cur_un_right_pts_map := Map.empty\<rparr>
      in do {
           s' \<leftarrow>
             (if cur_pts s \<noteq> [] then do {
                (right, status) \<leftarrow>
                  (if \<not> (USE_GPU_ACC_FLOW e \<noteq> 0) then stereo_flow (calcOpticalFlowPyrLK e) e rightImg s
                   else stereo_flow (SparsePyrLK e) e rightImg s);
                right' \<leftarrow> reduceVector right status;
                ids_right' \<leftarrow> reduceVector (ids s) status;
                cam \<leftarrow> nth_opt (m_camera s) 1;
                un_right \<leftarrow> undistortedPts right' cam;
                (velocity, cur_id_pts) \<leftarrow> ptsVelocity s ids_right' un_right (prev_un_right_pts_map s);
                Some (s\<lparr>cur_right_pts := right', ids_right := ids_right', cur_un_right_pts := un_right,
                        right_pts_velocity := velocity, cur_un_right_pts_map := cur_id_pts\<rparr>)
              }
              else Some s);
           Some (s'\<lparr>prev_un_right_pts_map := cur_un_right_pts_map s'\<rparr>)
         })"

section \<open>The frame pipeline\<close>

text \<open>Propagation, ageing, mask selection, detection and new tracks.\<close>

definition update_tracks :: "env \<Rightarrow> tracker \<Rightarrow> tracker option" where
  "update_tracks e s = do {
     s1 \<leftarrow> (if prev_pts s \<noteq> [] then propagate e s else Some s);
     aged \<leftarrow> incr_all (track_cnt s1);
     s2 \<leftarrow> setMask e (s1\<lparr>track_cnt := aged\<rparr>);
     addPoints (s2\<lparr>n_pts := detect e s2\<rparr>)
   }"

definition update_velocity :: "tracker \<Rightarrow> tracker option" where
  "update_velocity s = do {
     cam \<leftarrow> nth_opt (m_camera s) 0;
     un_pts \<leftarrow> undistortedPts (cur_pts s) cam;
     (velocity, cur_id_pts) \<leftarrow> ptsVelocity s (ids s) un_pts (prev_un_pts_map s);
     Some (s\<lparr>cur_un_pts := un_pts, pts_velocity := velocity, cur_un_pts_map := cur_id_pts\<rparr>)
   }"

text \<open>\<^verbatim>\<open>prevLeftPtsMap[ids[i]] = cur_pts[i]\<close> for every index of \<^verbatim>\<open>cur_pts\<close>.\<close>

function left_map_loop ::
  "int list \<Rightarrow> Point2f list \<Rightarrow> (int \<rightharpoonup> Point2f) \<Rightarrow> nat \<Rightarrow> (int \<rightharpoonup> Point2f) option" where
  "left_map_loop idv pts m i =
     (if i < length pts then
        (if i < length idv then left_map_loop idv pts (m(idv ! i \<mapsto> pts ! i)) (i + 1) else None)
      else Some m)"
  by pat_completeness auto
termination
  by (relation "measure (\<lambda>(idv, pts, m, i). length pts - i)") auto

declare left_map_loop.simps [simp del]

definition roll_forward :: "tracker \<Rightarrow> tracker option" where
  "roll_forward s = do {
     m \<leftarrow> left_map_loop (ids s) (cur_pts s) Map.empty 0;
     Some (s\<lparr>prev_img := cur_img s, prev_pts := cur_pts s, prev_un_pts := cur_un_pts s,
             prev_un_pts_map := cur_un_pts_map s, prev_time := cur_time s,
             hasPrediction := False, prevLeftPtsMap := m\<rparr>)
   }"

text \<open>\<^verbatim>\<open>featureFrame[feature_id].emplace_back(camera_id, xyz_uv_velocity)\<close>\<close>

definition emplace_back :: "featureFrame \<Rightarrow> int \<Rightarrow> observation \<Rightarrow> featureFrame" where
  "emplace_back ff feature_id ob =
     ff(feature_id \<mapsto> (case ff feature_id of None \<Rightarrow> [] | Some obs \<Rightarrow> obs) @ [ob])"

text \<open>
  The two loops assembling the report have the same body: \<open>camera_id\<close> is 0 over
  \<^verbatim>\<open>ids\<close>, \<^verbatim>\<open>cur_un_pts\<close>, \<^verbatim>\<open>cur_pts\<close>, \<^verbatim>\<open>pts_velocity\<close> and 1 over \<^verbatim>\<open>ids_right\<close>,
  \<^verbatim>\<open>cur_un_right_pts\<close>, \<^verbatim>\<open>cur_right_pts\<close>, \<^verbatim>\<open>right_pts_velocity\<close>.
\<close>

function report_loop ::
  "int \<Rightarrow> int list \<Rightarrow> Point2f list \<Rightarrow> Point2f list \<Rightarrow> Point2f list \<Rightarrow> featureFrame \<Rightarrow> nat
    \<Rightarrow> featureFrame option" where
  "report_loop camera_id idv un pts velocity ff i =
     (if i < length idv then
        (if i < length un \<and> i < length pts \<and> i < length velocity then
           report_loop camera_id idv un pts velocity
             (emplace_back ff (idv ! i)
                (camera_id,
                 [px (un ! i), py (un ! i), 1, px (pts ! i), py (pts ! i),
                  px (velocity ! i), py (velocity ! i)]))
             (i + 1)
         else None)
      else Some ff)"
  by pat_completeness auto
termination
  by (relation "measure (\<lambda>(camera_id, idv, un, pts, velocity, ff, i). length idv - i)") auto

declare report_loop.simps [simp del]

definition build_report :: "bool \<Rightarrow> tracker \<Rightarrow> featureFrame option" where
  "build_report stereo s = do {
     ff \<leftarrow> report_loop 0 (ids s) (cur_un_pts s) (cur_pts s) (pts_velocity s) Map.empty 0;
     if stereo then
       report_loop 1 (ids_right s) (cur_un_right_pts s) (cur_right_pts s) (right_pts_velocity s) ff 0
     else Some ff
   }"

definition trackImage :: "env \<Rightarrow> real \<Rightarrow> Mat \<Rightarrow> Mat \<Rightarrow> tracker \<Rightarrow> (featureFrame \<times> tracker) option" where
  "trackImage e a_cur_time a_img a_img1 s0 = do {
     s1 \<leftarrow> update_tracks e
             (s0\<lparr>cur_time := a_cur_time, cur_img := a_img, row := rows a_img, col := cols a_img,
                 cur_pts := []\<rparr>);
     s2 \<leftarrow> update_velocity s1;
     s3 \<leftarrow> (if \<not> Mat_empty a_img1 \<and> stereo_cam s2 then stereo_stage e a_img1 s2 else Some s2);
     s4 \<leftarrow> roll_forward s3;
     ff \<leftarrow> build_report (\<not> Mat_empty a_img1 \<and> stereo_cam s4) s4;
     Some (ff, s4)
   }"

section \<open>Construction and the feedback channel\<close>

text \<open>
  The constructor sets four members; the vectors and maps start empty, and the
  scalars it leaves uninitialised are the arguments.
\<close>

definition FeatureTracker :: "int \<Rightarrow> int \<Rightarrow> real \<Rightarrow> real \<Rightarrow> tracker" where
  "FeatureTracker r c t t' =
     \<lparr>row = r, col = c,
      mask_m = \<lparr>rows = 0, cols = 0, pixel = (\<lambda>r c. 0)\<rparr>,
      prev_img = \<lparr>rows = 0, cols = 0, pixel = (\<lambda>r c. 0)\<rparr>,
      cur_img = \<lparr>rows = 0, cols = 0, pixel = (\<lambda>r c. 0)\<rparr>,
      n_pts = [], predict_pts = [], predict_pts_debug = [], prev_pts = [], cur_pts = [],
      cur_right_pts = [], prev_un_pts = [], cur_un_pts = [], cur_un_right_pts = [],
      pts_velocity = [], right_pts_velocity = [], ids = [], ids_right = [], track_cnt = [],
      cur_un_pts_map = Map.empty, prev_un_pts_map = Map.empty, cur_un_right_pts_map = Map.empty,
      prev_un_right_pts_map = Map.empty, prevLeftPtsMap = Map.empty, m_camera = [],
      cur_time = t, prev_time = t', stereo_cam = False, n_id = 0, hasPrediction = False,
      sum_n = 0\<rparr>"

text \<open>\<^verbatim>\<open>readIntrinsicParameter\<close>, given the cameras generated from the calibration files.\<close>

definition readIntrinsicParameter :: "camera list \<Rightarrow> tracker \<Rightarrow> tracker" where
  "readIntrinsicParameter cams s =
     (let s' = s\<lparr>m_camera := m_camera s @ cams\<rparr>
      in if length cams = 2 then s'\<lparr>stereo_cam := True\<rparr> else s')"

function setPrediction_loop :: "(int \<rightharpoonup> Vector3d) \<Rightarrow> tracker \<Rightarrow> nat \<Rightarrow> tracker option" where
  "setPrediction_loop predictPts s i =
     (if i < length (ids s) then
        (case predictPts (ids s ! i) of
           Some v \<Rightarrow>
             (case nth_opt (m_camera s) 0 of
                None \<Rightarrow> None
              | Some cam \<Rightarrow>
                  setPrediction_loop predictPts
                    (s\<lparr>predict_pts := predict_pts s @ [spaceToPlane cam v],
                       predict_pts_debug := predict_pts_debug s @ [spaceToPlane cam v]\<rparr>) (i + 1))
         | None \<Rightarrow>
             (if i < length (prev_pts s) then
                setPrediction_loop predictPts (s\<lparr>predict_pts := predict_pts s @ [prev_pts s ! i]\<rparr>) (i + 1)
              else None))
      else Some s)"
  by pat_completeness auto
termination
  by (relation "measure (\<lambda>(predictPts, s, i). length (ids s) - i)") auto

declare setPrediction_loop.simps [simp del]

definition setPrediction :: "(int \<rightharpoonup> Vector3d) \<Rightarrow> tracker \<Rightarrow> tracker option" where
  "setPrediction predictPts s =
     setPrediction_loop predictPts (s\<lparr>hasPrediction := True, predict_pts := [], predict_pts_debug := []\<rparr>) 0"

text \<open>The loop of \<^verbatim>\<open>removeOutliers\<close> building the status vector.\<close>

fun outlier_status :: "int list \<Rightarrow> int set \<Rightarrow> uchar list" where
  "outlier_status [] removePtsIds = []"
| "outlier_status (i # idv) removePtsIds =
     (if i \<in> removePtsIds then 0 else 1) # outlier_status idv removePtsIds"

definition removeOutliers :: "int set \<Rightarrow> tracker \<Rightarrow> tracker option" where
  "removeOutliers removePtsIds s =
     (let status = outlier_status (ids s) removePtsIds
      in do {
           prev' \<leftarrow> reduceVector (prev_pts s) status;
           ids' \<leftarrow> reduceVector (ids s) status;
           track_cnt' \<leftarrow> reduceVector (track_cnt s) status;
           Some (s\<lparr>prev_pts := prev', ids := ids', track_cnt := track_cnt'\<rparr>)
         })"

section \<open>The states of a session\<close>

text \<open>
  The states a tracker instance reaches: it is constructed, and then its public members
  are called, with any arguments, each call returning (a call without a value in the model
  ends the session).
\<close>

inductive reachable :: "env \<Rightarrow> tracker \<Rightarrow> bool" for e :: env where
  construct: "reachable e (FeatureTracker r c t t')"
| calibrate: "reachable e s \<Longrightarrow> reachable e (readIntrinsicParameter cams s)"
| track: "reachable e s \<Longrightarrow> trackImage e t img img1 s = Some (ff, s') \<Longrightarrow> reachable e s'"
| predict: "reachable e s \<Longrightarrow> setPrediction predictPts s = Some s' \<Longrightarrow> reachable e s'"
| feedback: "reachable e s \<Longrightarrow> removeOutliers removePtsIds s = Some s' \<Longrightarrow> reachable e s'"

section \<open>Notions used to state the claims\<close>

text \<open>The distance of two points as the specification means it: the exact Euclidean one.\<close>

definition exact_distance :: "Point2f \<Rightarrow> Point2f \<Rightarrow> real" where
  "exact_distance pt1 pt2 = sqrt ((px pt1 - px pt2)\<^sup>2 + (py pt1 - py pt2)\<^sup>2)"

text \<open>The velocity that the rule of the estimator gives to the entry \<open>i\<close>.\<close>

definition rule_velocity :: "(int \<rightharpoonup> Point2f) \<Rightarrow> real \<Rightarrow> int \<Rightarrow> Point2f \<Rightarrow> Point2f" where
  "rule_velocity prev_id_pts dt i p =
     (case prev_id_pts i of
        Some q \<Rightarrow> Point2f ((px p - px q) / dt) ((py p - py q) / dt)
      | None \<Rightarrow> Point2f 0 0)"

text \<open>The tracks of a state: the triples (age, pixel position, id) of its parallel vectors.\<close>

definition tracks_of :: "tracker \<Rightarrow> (int \<times> Point2f \<times> int) list" where
  "tracks_of s = zip (track_cnt s) (zip (cur_pts s) (ids s))"



text \<open>
  The selection as the specification words it: walk the list; accept a track if its pixel
  lies on an unclaimed pixel of the mask (value 255), then stamp a disk of radius \<open>r\<close> around
  it as claimed (value 0); drop it otherwise. The result is the accepted tracks and the
  final mask.
\<close>

fun greedy_select ::
  "(Mat \<Rightarrow> int \<times> int \<Rightarrow> int \<Rightarrow> uchar \<Rightarrow> Mat) \<Rightarrow> int \<Rightarrow> Mat \<Rightarrow> (int \<times> Point2f \<times> int) list
    \<Rightarrow> ((int \<times> Point2f \<times> int) list \<times> Mat) option" where
  "greedy_select circle r m [] = Some ([], m)"
| "greedy_select circle r m (t # ts) =
     (case Mat_at m (toPoint (fst (snd t))) of
        None \<Rightarrow> None
      | Some v \<Rightarrow>
          if v = 255 then
            (case greedy_select circle r (circle m (toPoint (fst (snd t))) r 0) ts of
               None \<Rightarrow> None
             | Some (acc, m') \<Rightarrow> Some (t # acc, m'))
          else greedy_select circle r m ts)"

text \<open>The ids that have an observation of camera \<open>c\<close> in a report.\<close>

definition camera_ids :: "int \<Rightarrow> featureFrame \<Rightarrow> int set" where
  "camera_ids c ff = {i. \<exists>obs v. ff i = Some obs \<and> (c, v) \<in> set obs}"

text \<open>The 7-vector of entry \<open>k\<close> of a report loop.\<close>

definition xyz_uv_velocity :: "Point2f list \<Rightarrow> Point2f list \<Rightarrow> Point2f list \<Rightarrow> nat \<Rightarrow> real list" where
  "xyz_uv_velocity un pts velocity k =
     [px (un ! k), py (un ! k), 1, px (pts ! k), py (pts ! k), px (velocity ! k), py (velocity ! k)]"

text \<open>
  The invariant of the id counter: the live ids are distinct and below the counter, and so
  are the ids of the two previous id-to-position maps.
\<close>

definition ids_below_counter :: "tracker \<Rightarrow> bool" where
  "ids_below_counter s =
     (distinct (ids s) \<and> 0 \<le> n_id s \<and> (\<forall>i\<in>set (ids s). 0 \<le> i \<and> i < n_id s) \<and>
      (\<forall>i\<in>dom (prev_un_pts_map s). i < n_id s) \<and>
      (\<forall>i\<in>dom (prev_un_right_pts_map s). i < n_id s))"

section \<open>Example inputs\<close>

text \<open>
  A flow backend for the examples: without seed every point \<open>p\<close> is found at \<open>f p\<close>, with
  a seed every point is found at \<open>g\<close> of its initial guess, and every point succeeds.
  \<open>shift dx\<close> moves a point along x. \<open>ex_circle\<close> draws a filled disk. \<open>ex_env lk\<close> is an
  environment with the backend \<open>lk\<close> on both flow paths, detectors that find nothing and
  a stable sort by descending age.
\<close>

definition ex_lk ::
  "(Point2f \<Rightarrow> Point2f) \<Rightarrow> (Point2f \<Rightarrow> Point2f)
    \<Rightarrow> Mat \<Rightarrow> Mat \<Rightarrow> Point2f list \<Rightarrow> Point2f list option \<Rightarrow> int \<Rightarrow> Point2f list \<times> uchar list" where
  "ex_lk f g prev cur pts seed maxLevel =
     (case seed of
        None \<Rightarrow> (map f pts, map (\<lambda>p. 1) pts)
      | Some guess \<Rightarrow> (map g guess, map (\<lambda>p. 1) guess))"

definition shift :: "real \<Rightarrow> Point2f \<Rightarrow> Point2f" where
  "shift dx p = Point2f (px p + dx) (py p)"

definition ex_circle :: "Mat \<Rightarrow> int \<times> int \<Rightarrow> int \<Rightarrow> uchar \<Rightarrow> Mat" where
  "ex_circle m c r v =
     m\<lparr>pixel := (\<lambda>y x. if (x - fst c) * (x - fst c) + (y - snd c) * (y - snd c) \<le> r * r then v
                         else pixel m y x)\<rparr>"

definition ex_env ::
  "(Mat \<Rightarrow> Mat \<Rightarrow> Point2f list \<Rightarrow> Point2f list option \<Rightarrow> int \<Rightarrow> Point2f list \<times> uchar list) \<Rightarrow> env" where
  "ex_env lk =
     \<lparr>USE_GPU_ACC_FLOW = 0, USE_GPU = 0, USE_VPI = 0, FLOW_BACK = 0, MAX_CNT = 3, MIN_DIST = 2,
      calcOpticalFlowPyrLK = lk, SparsePyrLK = lk,
      goodFeaturesToTrack = (\<lambda>img n d m. []), gpuCornersDetector = (\<lambda>img n d m. []),
      vpiHarrisCorners = (\<lambda>img. []),
      std_sort = sort_key (\<lambda>t. - fst t), cv_circle = ex_circle\<rparr>"

text \<open>A state with two tracks, 7 at pixel (5, 5) and 8 at pixel (1, 5), in a 10 x 10 image.\<close>

definition ex_state :: tracker where
  "ex_state = (FeatureTracker 10 10 0 0)
     \<lparr>prev_pts := [Point2f 5 5, Point2f 1 5], ids := [7, 8], track_cnt := [1, 1], n_id := 9\<rparr>"

text \<open>
  A reverse pass for the examples: seeded at a previous point \<open>q\<close>, it lands one pixel
  away from \<open>q\<close> when \<open>q\<close> is left of column 3, and a quarter of a pixel away otherwise.
\<close>

definition ex_back :: "Point2f \<Rightarrow> Point2f" where
  "ex_back q = shift (if px q < 3 then 1 else 1 / 4) q"

text \<open>
  A state with track 7 at pixel (3/4, 4) and track 8 at pixel (8, 4) in a 10 x 10 image,
  and a reverse pass that lands on (1/4 - 1/2^26, y) when seeded at a point (x, y) left of
  column 3, and on its seed otherwise. All these coordinates are \<^verbatim>\<open>float\<close> numbers.
\<close>

definition ex_edge :: tracker where
  "ex_edge = (FeatureTracker 10 10 0 0)
     \<lparr>prev_pts := [Point2f (3 / 4) 4, Point2f 8 4], ids := [7, 8], track_cnt := [1, 1], n_id := 9\<rparr>"

definition ex_edge_back :: "Point2f \<Rightarrow> Point2f" where
  "ex_edge_back q = (if px q < 3 then Point2f (1 / 4 - 1 / 2 ^ 26) (py q) else q)"

text \<open>
  The state \<open>ex_state\<close> with a staged prediction, and a state with ten tracks and a
  staged prediction.
\<close>

definition ex_predicted :: tracker where
  "ex_predicted = ex_state\<lparr>hasPrediction := True, predict_pts := [Point2f 4 5, Point2f 0 5]\<rparr>"

definition ex_predicted10 :: tracker where
  "ex_predicted10 = ex_state\<lparr>hasPrediction := True, prev_pts := replicate 10 (Point2f 5 5),
     predict_pts := replicate 10 (Point2f 4 5)\<rparr>"

text \<open>
  A camera that scales pixels by a tenth, a 10 x 10 image, an empty image, and the state
  \<open>ex_state\<close> with this camera.
\<close>

definition ex_camera :: camera where
  "ex_camera = \<lparr>liftProjective = (\<lambda>p. (px p / 10, py p / 10, 1)),
                 spaceToPlane = (\<lambda>v. case v of (x, y, z) \<Rightarrow> Point2f (10 * x / z) (10 * y / z))\<rparr>"

definition ex_img :: Mat where
  "ex_img = \<lparr>rows = 10, cols = 10, pixel = (\<lambda>r c. 0)\<rparr>"

definition ex_no_img :: Mat where
  "ex_no_img = \<lparr>rows = 0, cols = 0, pixel = (\<lambda>r c. 0)\<rparr>"

definition ex_mono :: tracker where
  "ex_mono = ex_state\<lparr>m_camera := [ex_camera]\<rparr>"

text \<open>One frame on \<open>ex_mono\<close>, then the removal of track 7.\<close>

definition ex_removed :: "tracker option" where
  "ex_removed =
     Option.bind (map_option snd (trackImage (ex_env (ex_lk (shift 1) id)) 1 ex_img ex_no_img ex_mono))
       (removeOutliers {7})"

text \<open>
  The state \<open>ex_state\<close> a tenth of a second after the previous frame, with two current
  points.
\<close>

definition ex_timed :: tracker where
  "ex_timed = ex_state\<lparr>cur_time := 1 / 10, prev_time := 0, cur_pts := [Point2f 5 5, Point2f 2 5]\<rparr>"



text \<open>
  A stereo rig: a flow that moves the points left of column 3 by one pixel and leaves the
  others in place, with the reverse check on, and the state \<open>ex_state\<close> with two cameras.
\<close>

definition ex_step :: "Point2f \<Rightarrow> Point2f" where
  "ex_step q = (if px q < 3 then shift 1 q else q)"

definition ex_stereo_env :: env where
  "ex_stereo_env = (ex_env (ex_lk ex_step id))\<lparr>FLOW_BACK := 1\<rparr>"

definition ex_stereo :: tracker where
  "ex_stereo = ex_state\<lparr>m_camera := [ex_camera, ex_camera], stereo_cam := True\<rparr>"

text \<open>
  An environment whose detector finds two corners, and the state of a tracker constructed,
  calibrated with one camera and run on one frame in it.
\<close>

definition ex_detect_env :: env where
  "ex_detect_env = (ex_env (ex_lk (shift 1) id))\<lparr>goodFeaturesToTrack := (\<lambda>img n d m. [Point2f 3 3, Point2f 7 7])\<rparr>"

definition ex_first :: tracker where
  "ex_first =
     the (map_option snd
       (trackImage ex_detect_env 1 ex_img ex_no_img
          (readIntrinsicParameter [ex_camera] (FeatureTracker 0 0 0 0))))"

section \<open>Lemmas about the loops\<close>

subsection \<open>Compaction\<close>

lemma kept_Nil [simp]: "kept [] status = []" "kept v [] = []"
  by (simp_all add: kept_def)

lemma kept_Cons [simp]:
  "kept (a # v) (st # status) = (if st \<noteq> 0 then a # kept v status else kept v status)"
  by (simp add: kept_def)

lemma reduceVector_loop_kept:
  "j \<le> i \<Longrightarrow> length v \<le> length status \<Longrightarrow>
   \<exists>v' j'. reduceVector_loop v status i j = Some (v', j') \<and>
     take j' v' = take j v @ kept (drop i v) (drop i status)"
proof (induction v status i j rule: reduceVector_loop.induct)
  case (1 v status i j)
  show ?case
  proof (cases "i < length v")
    case False
    then show ?thesis by (simp add: reduceVector_loop.simps [of v status i j])
  next
    case True
    with "1.prems" have ist: "i < length status" by simp
    have dv: "drop i v = v ! i # drop (Suc i) v"
      using True by (simp add: Cons_nth_drop_Suc)
    have ds: "drop i status = status ! i # drop (Suc i) status"
      using ist by (simp add: Cons_nth_drop_Suc)
    show ?thesis
    proof (cases "status ! i \<noteq> 0")
      case nz: True
      have jv: "j < length v" using True "1.prems" by simp
      from "1.IH"(1) [OF True ist nz] "1.prems"
      obtain v' j' where r: "reduceVector_loop (v[j := v ! i]) status (i + 1) (j + 1) = Some (v', j')"
        and t: "take j' v' = take (j + 1) (v[j := v ! i]) @ kept (drop (i + 1) (v[j := v ! i])) (drop (i + 1) status)"
        by auto
      have a: "take (j + 1) (v[j := v ! i]) = take j v @ [v ! i]"
        using jv by (simp add: take_Suc_conv_app_nth)
      have b: "drop (i + 1) (v[j := v ! i]) = drop (Suc i) v"
        using "1.prems" by simp
      show ?thesis
        using r t a b nz True ist dv ds
        by (simp add: reduceVector_loop.simps [of v status i j])
    next
      case z: False
      from "1.IH"(2) [OF True ist z] "1.prems"
      obtain v' j' where r: "reduceVector_loop v status (i + 1) j = Some (v', j')"
        and t: "take j' v' = take j v @ kept (drop (i + 1) v) (drop (i + 1) status)"
        by auto
      show ?thesis
        using r t z True ist dv ds
        by (simp add: reduceVector_loop.simps [of v status i j])
    qed
  qed
qed

lemma reduceVector_loop_None:
  "length status < length v \<Longrightarrow> i \<le> length status \<Longrightarrow> reduceVector_loop v status i j = None"
proof (induction v status i j rule: reduceVector_loop.induct)
  case (1 v status i j)
  show ?case
  proof (cases "i < length v")
    case False
    with "1.prems" show ?thesis by simp
  next
    case True
    show ?thesis
    proof (cases "i < length status")
      case False
      with True show ?thesis by (simp add: reduceVector_loop.simps [of v status i j])
    next
      case st: True
      show ?thesis
        using "1.IH"(1) [OF True st] "1.IH"(2) [OF True st] "1.prems" True st
        by (simp add: reduceVector_loop.simps [of v status i j])
    qed
  qed
qed

lemma reduceVector_eq:
  "reduceVector v status = (if length v \<le> length status then Some (kept v status) else None)"
proof (cases "length v \<le> length status")
  case True
  from reduceVector_loop_kept [of 0 0 v status] True
  show ?thesis by (auto simp: reduceVector_def)
next
  case False
  then show ?thesis
    by (simp add: reduceVector_def reduceVector_loop_None)
qed

subsection \<open>Border filter\<close>

lemma border_loop_Some:
  "border_loop s cur status i = Some st' \<Longrightarrow>
   length st' = length status \<and>
   (\<forall>k<length status. st' ! k =
      (if i \<le> k \<and> k < length cur \<and> status ! k \<noteq> 0 \<and> \<not> inBorder s (cur ! k) then 0 else status ! k))"
proof (induction s cur status i arbitrary: st' rule: border_loop.induct)
  case (1 s cur status i)
  show ?case
  proof (cases "i < length cur")
    case False
    with "1.prems" show ?thesis by (simp add: border_loop.simps [of s cur status i])
  next
    case True
    show ?thesis
    proof (cases "i < length status")
      case False
      with True "1.prems" show ?thesis by (simp add: border_loop.simps [of s cur status i])
    next
      case st: True
      define status2 where
        "status2 = (if status ! i \<noteq> 0 \<and> \<not> inBorder s (cur ! i) then status[i := 0] else status)"
      from "1.prems" True st have r: "border_loop s cur status2 (i + 1) = Some st'"
        by (simp add: border_loop.simps [of s cur status i] status2_def)
      from "1.IH" [OF True st, of st'] r
      have ih: "length st' = length status2 \<and>
        (\<forall>k<length status2. st' ! k =
          (if i + 1 \<le> k \<and> k < length cur \<and> status2 ! k \<noteq> 0 \<and> \<not> inBorder s (cur ! k) then 0
           else status2 ! k))"
        by (simp add: status2_def)
      have l2: "length status2 = length status" by (simp add: status2_def)
      have n2: "\<And>k. k \<noteq> i \<Longrightarrow> status2 ! k = status ! k" by (simp add: status2_def)
      have i2: "status2 ! i = (if status ! i \<noteq> 0 \<and> \<not> inBorder s (cur ! i) then 0 else status ! i)"
        using st by (simp add: status2_def)
      show ?thesis
      proof (intro conjI allI impI)
        show "length st' = length status" using ih l2 by simp
      next
        fix k assume k: "k < length status"
        show "st' ! k =
          (if i \<le> k \<and> k < length cur \<and> status ! k \<noteq> 0 \<and> \<not> inBorder s (cur ! k) then 0 else status ! k)"
        proof (cases "k = i")
          case True
          then show ?thesis using ih l2 k i2 \<open>i < length cur\<close> by simp
        next
          case False
          then show ?thesis using ih l2 k n2 [OF False] by auto
        qed
      qed
    qed
  qed
qed

lemma inBorder_iff:
  "inBorder s pt \<longleftrightarrow>
     1 \<le> cvRound (px pt) \<and> cvRound (px pt) < col s - 1 \<and>
     1 \<le> cvRound (py pt) \<and> cvRound (py pt) < row s - 1"
  by (simp add: inBorder_def Let_def)

lemma cvRound_near: "of_int (cvRound v) - 1 / 2 \<le> v \<and> v \<le> of_int (cvRound v) + 1 / 2"
proof -
  have "of_int \<lfloor>v\<rfloor> \<le> v" "v < of_int \<lfloor>v\<rfloor> + 1" by linarith+
  then show ?thesis
    unfolding cvRound_def Let_def by (auto split: if_splits; linarith)
qed

lemma propagate_SomeD:
  assumes "propagate e s = Some s'"
  obtains cur status status' where
    "optical_flow e s = Some (cur, status)"
    "border_loop s cur status 0 = Some status'"
    "length cur \<le> length status'"
    "s' = s\<lparr>prev_pts := kept (prev_pts s) status', cur_pts := kept cur status',
             ids := kept (ids s) status', track_cnt := kept (track_cnt s) status'\<rparr>"
  using assms
  by (auto simp: propagate_def bind_eq_Some_conv reduceVector_eq split: if_splits)

lemma set_kept: "set (kept v status) = {v ! i |i. i < length v \<and> i < length status \<and> status ! i \<noteq> 0}"
proof -
  have "set (kept v status) = fst ` {p \<in> set (zip v status). snd p \<noteq> 0}"
    by (simp add: kept_def)
  also have "\<dots> = {v ! i |i. i < length v \<and> i < length status \<and> status ! i \<noteq> 0}"
    by (auto simp: set_zip image_iff) force
  finally show ?thesis .
qed

lemma ex_flow: "optical_flow (ex_env (ex_lk (shift dx) g)) ex_state =
   Some ([Point2f (5 + dx) 5, Point2f (1 + dx) 5], [1, 1])"
  by (simp add: optical_flow_def flow_forward_def ex_env_def ex_state_def ex_lk_def shift_def
      FeatureTracker_def)

lemma cvRound_ex: "cvRound (3 / 4) = 1" "cvRound (- (13 / 4)) = - 3" "cvRound 5 = 5"
  by (simp_all add: cvRound_def Let_def)

lemma ex_propagate: "propagate (ex_env (ex_lk (shift (- (17 / 4))) id)) ex_state =
   Some (ex_state\<lparr>prev_pts := [Point2f 5 5], cur_pts := [Point2f (3 / 4) 5], ids := [7], track_cnt := [1]\<rparr>)"
  by (simp add: propagate_def ex_flow border_loop.simps reduceVector_eq inBorder_iff cvRound_ex)
     (simp add: ex_state_def FeatureTracker_def inBorder_iff cvRound_ex)

subsection \<open>Floating-point rounding\<close>

lemma pow2_powr: "pow2 k = 2 powr (of_int k)"
  by (simp add: pow2_def powr_int)

lemma pow2_pos: "0 < pow2 k"
  by (simp add: pow2_powr)

lemma pow2_less_iff: "pow2 a < pow2 b \<longleftrightarrow> a < b"
  by (simp add: pow2_powr)

lemma pow2_add: "pow2 (a + b) = pow2 a * pow2 b"
  by (simp add: pow2_powr powr_add)

lemma pow2_diff_nat: "pow2 (a - int p) = pow2 a / 2 ^ p"
  by (simp add: pow2_powr powr_diff powr_realpow)

lemma exponent_bounds: "0 < x \<Longrightarrow> pow2 (exponent x) \<le> x \<and> x < 2 * pow2 (exponent x)"
proof (induction x rule: exponent.induct)
  case (1 x)
  note unf = exponent.simps [of x]
  show ?case
  proof (cases "x < 1")
    case True
    with "1.prems" have e: "exponent x = exponent (2 * x) - 1" by (simp add: unf)
    from "1.IH"(1) True "1.prems" have "pow2 (exponent (2 * x)) \<le> 2 * x \<and> 2 * x < 2 * pow2 (exponent (2 * x))"
      by simp
    moreover have "pow2 (exponent (2 * x)) = 2 * pow2 (exponent x)"
      using pow2_add [of "exponent x" 1] by (simp add: e pow2_def)
    ultimately show ?thesis by simp
  next
    case False
    show ?thesis
    proof (cases "2 \<le> x")
      case True
      with False "1.prems" have e: "exponent x = exponent (x / 2) + 1" by (simp add: unf)
      from "1.IH"(2) True False "1.prems" have "pow2 (exponent (x / 2)) \<le> x / 2 \<and> x / 2 < 2 * pow2 (exponent (x / 2))"
        by simp
      moreover have "pow2 (exponent x) = 2 * pow2 (exponent (x / 2))"
        using pow2_add [of "exponent (x / 2)" 1] by (simp add: e pow2_def)
      ultimately show ?thesis by simp
    next
      case f2: False
      with False "1.prems" have "exponent x = 0" by (simp add: unf)
      with False f2 show ?thesis by (simp add: pow2_def)
    qed
  qed
qed

lemma round_even_near: "\<bar>of_int (round_even v) - v\<bar> \<le> 1 / 2"
proof -
  have "of_int \<lfloor>v\<rfloor> \<le> v" "v < of_int \<lfloor>v\<rfloor> + 1" by linarith+
  then show ?thesis
    unfolding round_even_def Let_def by (auto split: if_splits; linarith)
qed

lemma round_even_nonneg: "0 \<le> v \<Longrightarrow> 0 \<le> round_even v"
proof -
  assume "0 \<le> v"
  then have "0 \<le> \<lfloor>v\<rfloor>" by simp
  then show ?thesis
    unfolding round_even_def Let_def by (auto split: if_splits)
qed

lemma ieee_round_nonneg: "0 \<le> x \<Longrightarrow> 0 \<le> ieee_round p emin x"
  using pow2_pos by (simp add: ieee_round_def Let_def round_even_nonneg less_imp_le)

lemma ieee_round_ulp:
  "\<bar>ieee_round p emin x - x\<bar> \<le> pow2 (max (exponent \<bar>x\<bar>) emin - int p + 1) / 2"
proof -
  define u where "u = pow2 (max (exponent \<bar>x\<bar>) emin - int p + 1)"
  define n where "n = real_of_int (round_even (x / u))"
  have u: "0 < u" by (simp add: u_def pow2_pos)
  have r: "ieee_round p emin x = n * u"
    by (simp add: ieee_round_def Let_def u_def n_def)
  have "\<bar>n - x / u\<bar> \<le> 1 / 2" unfolding n_def by (rule round_even_near)
  then have "\<bar>n - x / u\<bar> * u \<le> 1 / 2 * u"
    using u by (intro mult_right_mono) simp_all
  moreover have "\<bar>n - x / u\<bar> * u = \<bar>(n - x / u) * u\<bar>"
    using u by (simp add: abs_mult)
  moreover have "(n - x / u) * u = n * u - x"
    using u by (simp add: left_diff_distrib)
  ultimately have "\<bar>n * u - x\<bar> \<le> u / 2" by simp
  then show ?thesis unfolding r u_def .
qed

lemma ieee_round_error:
  assumes "pow2 emin \<le> \<bar>x\<bar>"
  shows "\<bar>ieee_round p emin x - x\<bar> \<le> \<bar>x\<bar> / 2 ^ p"
proof -
  from assms pow2_pos [of emin] have x: "0 < \<bar>x\<bar>" by linarith
  from exponent_bounds [OF x] have b: "pow2 (exponent \<bar>x\<bar>) \<le> \<bar>x\<bar>" "\<bar>x\<bar> < 2 * pow2 (exponent \<bar>x\<bar>)"
    by simp_all
  from assms b(2) have "pow2 emin < pow2 (exponent \<bar>x\<bar> + 1)"
    using pow2_add [of "exponent \<bar>x\<bar>" 1] by (simp add: pow2_def)
  then have "emin \<le> exponent \<bar>x\<bar>" by (simp add: pow2_less_iff)
  then have m: "max (exponent \<bar>x\<bar>) emin = exponent \<bar>x\<bar>" by simp
  have "pow2 (exponent \<bar>x\<bar> - int p + 1) = 2 * pow2 (exponent \<bar>x\<bar>) / 2 ^ p"
    using pow2_diff_nat [of "exponent \<bar>x\<bar> + 1" p] pow2_add [of "exponent \<bar>x\<bar>" 1]
    by (simp add: pow2_def algebra_simps)
  with ieee_round_ulp [of p emin x] have "\<bar>ieee_round p emin x - x\<bar> \<le> pow2 (exponent \<bar>x\<bar>) / 2 ^ p"
    by (simp add: m)
  also have "\<dots> \<le> \<bar>x\<bar> / 2 ^ p" using b(1) by (simp add: divide_right_mono)
  finally show ?thesis .
qed

lemma to_double_nonneg: "0 \<le> x \<Longrightarrow> 0 \<le> to_double x"
  unfolding to_double_def by (rule ieee_round_nonneg)

lemmas float_eval = to_float_def to_double_def ieee_round_def exponent.simps pow2_def round_even_def Let_def



lemma distance_eval:
  assumes "to_float (px pt1 - px pt2) = dx" and "to_float (py pt1 - py pt2) = dy"
    and "to_double (dx * dx) = xx" and "to_double (dy * dy) = yy"
    and "to_double (xx + yy) = r * r" and "0 \<le> r" and "to_double r = d"
  shows "distance pt1 pt2 = d"
  using assms by (simp add: distance_def Let_def)

lemma distance_self: "distance pt pt = 0"
  by (rule distance_eval [where dx = 0 and dy = 0 and xx = 0 and yy = 0 and r = 0]; simp add: float_eval)

lemma ex_distance:
  "distance (Point2f 5 5) (Point2f (21 / 4) 5) = 1 / 4"
  "distance (Point2f 1 5) (Point2f 2 5) = 1"
  "distance (Point2f 2 5) (Point2f 3 5) = 1"
  "distance (Point2f (3 / 4) 4) (Point2f (16777215 / 67108864) 4) = 1 / 2"
     apply (rule distance_eval [where dx = "- (1 / 4)" and dy = 0 and xx = "1 / 16" and yy = 0 and r = "1 / 4"];
      simp add: float_eval)
    apply (rule distance_eval [where dx = "- 1" and dy = 0 and xx = 1 and yy = 0 and r = 1];
      simp add: float_eval)
   apply (rule distance_eval [where dx = "- 1" and dy = 0 and xx = 1 and yy = 0 and r = 1];
      simp add: float_eval)
  apply (rule distance_eval [where dx = "1 / 2" and dy = 0 and xx = "1 / 4" and yy = 0 and r = "1 / 2"];
      simp add: float_eval)
  done

lemma ex_exact_distance:
  "exact_distance (Point2f (3 / 4) 4) (Point2f (1 / 4 - 1 / 2 ^ 26) 4) = 1 / 2 + 1 / 2 ^ 26"
  "exact_distance (Point2f 8 4) (Point2f 8 4) = 0"
  "exact_distance (Point2f 1 5) (Point2f 2 5) = 1"
  by (simp_all add: exact_distance_def)

lemma round_even_zero: "round_even 0 = 0"
  by (simp add: round_even_def)

lemma ieee_round_zero: "ieee_round p emin 0 = 0"
  by (simp add: ieee_round_def Let_def round_even_zero)

lemma ieee_round_error_abs:
  "\<bar>ieee_round p emin x - x\<bar> \<le> \<bar>x\<bar> / 2 ^ p + pow2 (emin - int p)"
proof (cases "pow2 emin \<le> \<bar>x\<bar>")
  case True
  from ieee_round_error [OF True, of p] pow2_pos [of "emin - int p"] show ?thesis by linarith
next
  case False
  show ?thesis
  proof (cases "x = 0")
    case True
    then show ?thesis using pow2_pos [of "emin - int p"] by (simp add: ieee_round_zero less_imp_le)
  next
    case x: False
    then have "0 < \<bar>x\<bar>" by simp
    from exponent_bounds [OF this] False have "pow2 (exponent \<bar>x\<bar>) < pow2 emin" by linarith
    then have "exponent \<bar>x\<bar> < emin" by (simp add: pow2_less_iff)
    then have m: "max (exponent \<bar>x\<bar>) emin = emin" by simp
    have "pow2 (emin - int p + 1) = 2 * pow2 (emin - int p)"
      using pow2_add [of "emin - int p" 1] by (simp add: pow2_def)
    with ieee_round_ulp [of p emin x] have "\<bar>ieee_round p emin x - x\<bar> \<le> pow2 (emin - int p)"
      by (simp add: m)
    moreover have "0 \<le> \<bar>x\<bar> / 2 ^ p" by simp
    ultimately show ?thesis by linarith
  qed
qed

lemma tiny_le: "n \<le> m \<Longrightarrow> (1 :: real) / 2 ^ m \<le> 1 / 2 ^ n"
  by (simp add: frac_le power_increasing)

lemma to_double_error: "\<bar>to_double x - x\<bar> \<le> \<bar>x\<bar> / 2 ^ 53 + 1 / 2 ^ 100"
proof -
  have "pow2 (- 1022 - int 53) = 1 / 2 ^ 1075" by (simp add: pow2_def)
  with ieee_round_error_abs [of 53 "- 1022" x] tiny_le [of 100 1075] show ?thesis
    unfolding to_double_def by simp
qed

lemma abs_near:
  fixes f a e :: real
  assumes "\<bar>f - a\<bar> \<le> e"
  shows "\<bar>a\<bar> - e \<le> \<bar>f\<bar>" and "\<bar>f\<bar> \<le> \<bar>a\<bar> + e"
  using assms by linarith+

lemma sq_scale_lower:
  fixes a f k :: real
  assumes "\<bar>a\<bar> * k \<le> \<bar>f\<bar>" and "0 \<le> k"
  shows "a\<^sup>2 * k\<^sup>2 \<le> f\<^sup>2"
proof -
  from assms have "(\<bar>a\<bar> * k)\<^sup>2 \<le> \<bar>f\<bar>\<^sup>2" by (intro power_mono) simp_all
  then show ?thesis by (simp add: power_mult_distrib)
qed

lemma sq_scale_upper:
  fixes a f k :: real
  assumes "\<bar>f\<bar> \<le> \<bar>a\<bar> * k"
  shows "f\<^sup>2 \<le> a\<^sup>2 * k\<^sup>2"
proof -
  from assms have "\<bar>f\<bar>\<^sup>2 \<le> (\<bar>a\<bar> * k)\<^sup>2" by (intro power_mono) simp_all
  then show ?thesis by (simp add: power_mult_distrib)
qed

lemma to_float_sq_lower: "a\<^sup>2 * (1 - 1 / 2 ^ 22) - 1 / 2 ^ 100 \<le> (to_float a)\<^sup>2"
proof (cases "pow2 (- 126) \<le> \<bar>a\<bar>")
  case True
  define k :: real where "k = 1 - 1 / 2 ^ 24"
  have k: "0 \<le> k" "1 - 1 / 2 ^ 22 \<le> k\<^sup>2" by (simp_all add: k_def power2_eq_square)
  from abs_near(1) [OF ieee_round_error [OF True, of 24]]
  have "\<bar>a\<bar> * k \<le> \<bar>to_float a\<bar>"
    unfolding to_float_def k_def by (simp add: right_diff_distrib)
  from sq_scale_lower [OF this k(1)] have "a\<^sup>2 * k\<^sup>2 \<le> (to_float a)\<^sup>2" .
  moreover have "a\<^sup>2 * (1 - 1 / 2 ^ 22) \<le> a\<^sup>2 * k\<^sup>2"
    using k(2) by (intro mult_left_mono) simp_all
  ultimately show ?thesis by simp
next
  case False
  then have "\<bar>a\<bar> \<le> 1 / 2 ^ 126" by (simp add: pow2_def)
  then have "\<bar>a\<bar>\<^sup>2 \<le> (1 / 2 ^ 126)\<^sup>2" by (intro power_mono) simp_all
  also have "\<dots> = (1 :: real) / 2 ^ 252" by (simp add: power_divide power_mult [symmetric])
  also have "\<dots> \<le> 1 / 2 ^ 100" by (rule tiny_le) simp
  finally have "a\<^sup>2 \<le> 1 / 2 ^ 100" by simp
  moreover have "a\<^sup>2 * (1 - 1 / 2 ^ 22) \<le> a\<^sup>2 * 1" by (intro mult_left_mono) simp_all
  moreover have "0 \<le> (to_float a)\<^sup>2" by simp
  ultimately show ?thesis by linarith
qed

lemma to_float_sq_upper: "(to_float a)\<^sup>2 \<le> a\<^sup>2 * (1 + 1 / 2 ^ 22) + 1 / 2 ^ 100"
proof (cases "pow2 (- 126) \<le> \<bar>a\<bar>")
  case True
  define k :: real where "k = 1 + 1 / 2 ^ 24"
  have k: "k\<^sup>2 \<le> 1 + 1 / 2 ^ 22" by (simp add: k_def power2_eq_square)
  from abs_near(2) [OF ieee_round_error [OF True, of 24]]
  have "\<bar>to_float a\<bar> \<le> \<bar>a\<bar> * k"
    unfolding to_float_def k_def by (simp add: distrib_left)
  from sq_scale_upper [OF this] have "(to_float a)\<^sup>2 \<le> a\<^sup>2 * k\<^sup>2" .
  moreover have "a\<^sup>2 * k\<^sup>2 \<le> a\<^sup>2 * (1 + 1 / 2 ^ 22)"
    using k by (intro mult_left_mono) simp_all
  ultimately show ?thesis by simp
next
  case False
  then have a: "\<bar>a\<bar> \<le> 1 / 2 ^ 126" by (simp add: pow2_def)
  have "pow2 (- 126 - int 24) = 1 / 2 ^ 150" by (simp add: pow2_def)
  with ieee_round_error_abs [of 24 "- 126" a] have "\<bar>to_float a - a\<bar> \<le> \<bar>a\<bar> / 2 ^ 24 + 1 / 2 ^ 150"
    unfolding to_float_def by simp
  from abs_near(2) [OF this] have "\<bar>to_float a\<bar> \<le> \<bar>a\<bar> + (\<bar>a\<bar> / 2 ^ 24 + 1 / 2 ^ 150)" .
  moreover have "\<bar>a\<bar> / 2 ^ 24 \<le> \<bar>a\<bar>" by (simp add: field_simps)
  moreover have "(1 :: real) / 2 ^ 150 \<le> 1 / 2 ^ 126" by (rule tiny_le) simp
  ultimately have "\<bar>to_float a\<bar> \<le> 3 * (1 / 2 ^ 126)" using a by linarith
  also have "\<dots> \<le> 4 * (1 / 2 ^ 126)" by simp
  also have "\<dots> = (1 :: real) / 2 ^ 124" by simp
  finally have "\<bar>to_float a\<bar>\<^sup>2 \<le> (1 / 2 ^ 124)\<^sup>2" by (intro power_mono) simp_all
  also have "\<dots> = (1 :: real) / 2 ^ 248" by (simp add: power_divide power_mult [symmetric])
  also have "\<dots> \<le> 1 / 2 ^ 100" by (rule tiny_le) simp
  finally have "(to_float a)\<^sup>2 \<le> 1 / 2 ^ 100" by simp
  moreover have "0 \<le> a\<^sup>2 * (1 + 1 / 2 ^ 22)" by simp
  ultimately show ?thesis by linarith
qed


lemma to_double_lower:
  assumes "c \<le> x" and "0 \<le> c"
  shows "c - c / 2 ^ 53 - 1 / 2 ^ 100 \<le> to_double x"
proof -
  from assms have x: "0 \<le> x" by simp
  have "(1 - 1 / 2 ^ 53) * c \<le> (1 - 1 / 2 ^ 53) * x"
    using assms(1) by (intro mult_left_mono) simp_all
  then have "c - c / 2 ^ 53 \<le> x - x / 2 ^ 53" by (simp add: algebra_simps)
  with to_double_error [of x] x show ?thesis by linarith
qed

lemma to_double_upper:
  assumes "x \<le> c" and "0 \<le> x"
  shows "to_double x \<le> c + c / 2 ^ 53 + 1 / 2 ^ 100"
proof -
  have "(1 + 1 / 2 ^ 53) * x \<le> (1 + 1 / 2 ^ 53) * c"
    using assms(1) by (intro mult_left_mono) simp_all
  then have "x + x / 2 ^ 53 \<le> c + c / 2 ^ 53" by (simp add: algebra_simps)
  with to_double_error [of x] assms(2) show ?thesis by linarith
qed

lemma sum_squares_lower:
  fixes a b fa fb xx yy c :: real
  assumes "c \<le> a + b" and "a * (1 - 1 / 2 ^ 22) - 1 / 2 ^ 100 \<le> fa"
    and "b * (1 - 1 / 2 ^ 22) - 1 / 2 ^ 100 \<le> fb"
    and "fa - fa / 2 ^ 53 - 1 / 2 ^ 100 \<le> xx" and "fb - fb / 2 ^ 53 - 1 / 2 ^ 100 \<le> yy"
  shows "c * (1 - 1 / 2 ^ 22) * (1 - 1 / 2 ^ 53) - 1 / 2 ^ 98 \<le> xx + yy"
proof -
  define k :: real where "k = 1 - 1 / 2 ^ 22"
  define l :: real where "l = 1 - 1 / 2 ^ 53"
  define t :: real where "t = 1 / 2 ^ 100"
  have kl: "0 \<le> k" "0 \<le> l" "l \<le> 1" and t: "0 \<le> t" "4 * t = 1 / 2 ^ 98"
    by (simp_all add: k_def l_def t_def)
  have "c * k \<le> (a + b) * k" using assms(1) kl by (intro mult_right_mono) simp_all
  moreover have "a * k - t \<le> fa" "b * k - t \<le> fb" using assms(2,3) by (simp_all add: k_def t_def)
  ultimately have "c * k - 2 * t \<le> fa + fb" by (simp add: distrib_right)
  then have "(c * k - 2 * t) * l \<le> (fa + fb) * l" using kl by (intro mult_right_mono) simp_all
  moreover have "fa * l - t \<le> xx" "fb * l - t \<le> yy"
    using assms(4,5) by (simp_all add: l_def t_def algebra_simps)
  ultimately have "(c * k - 2 * t) * l - 2 * t \<le> xx + yy" by (simp add: distrib_right)
  moreover have "(c * k - 2 * t) * l = c * k * l - 2 * (t * l)" by (simp add: algebra_simps)
  moreover have "t * l \<le> t * 1" using kl t by (intro mult_left_mono) simp_all
  ultimately have "c * k * l - 4 * t \<le> xx + yy" by linarith
  then show ?thesis unfolding t(2) by (simp add: k_def l_def)
qed

lemma sum_squares_upper:
  fixes a b fa fb xx yy c :: real
  assumes "a + b \<le> c" and "fa \<le> a * (1 + 1 / 2 ^ 22) + 1 / 2 ^ 100"
    and "fb \<le> b * (1 + 1 / 2 ^ 22) + 1 / 2 ^ 100"
    and "xx \<le> fa + fa / 2 ^ 53 + 1 / 2 ^ 100" and "yy \<le> fb + fb / 2 ^ 53 + 1 / 2 ^ 100"
  shows "xx + yy \<le> c * (1 + 1 / 2 ^ 22) * (1 + 1 / 2 ^ 53) + 1 / 2 ^ 97"
proof -
  define k :: real where "k = 1 + 1 / 2 ^ 22"
  define l :: real where "l = 1 + 1 / 2 ^ 53"
  define t :: real where "t = 1 / 2 ^ 100"
  have kl: "0 \<le> k" "0 \<le> l" "l \<le> 2" and t: "0 \<le> t" "8 * t = 1 / 2 ^ 97"
    by (simp_all add: k_def l_def t_def)
  have "(a + b) * k \<le> c * k" using assms(1) kl by (intro mult_right_mono) simp_all
  moreover have "fa \<le> a * k + t" "fb \<le> b * k + t" using assms(2,3) by (simp_all add: k_def t_def)
  ultimately have "fa + fb \<le> c * k + 2 * t" by (simp add: distrib_right)
  then have "(fa + fb) * l \<le> (c * k + 2 * t) * l" using kl by (intro mult_right_mono) simp_all
  moreover have "xx \<le> fa * l + t" "yy \<le> fb * l + t"
    using assms(4,5) by (simp_all add: l_def t_def algebra_simps)
  ultimately have "xx + yy \<le> (c * k + 2 * t) * l + 2 * t" by (simp add: distrib_right)
  moreover have "(c * k + 2 * t) * l = c * k * l + 2 * (t * l)" by (simp add: algebra_simps)
  moreover have "t * l \<le> t * 2" using kl t by (intro mult_left_mono) simp_all
  ultimately have "xx + yy \<le> c * k * l + 8 * t" using t(1) by linarith
  then show ?thesis unfolding t(2) by (simp add: k_def l_def)
qed

lemma exact_distance_sq: "(exact_distance pt1 pt2)\<^sup>2 = (px pt1 - px pt2)\<^sup>2 + (py pt1 - py pt2)\<^sup>2"
  by (simp add: exact_distance_def)

lemma exact_distance_nonneg: "0 \<le> exact_distance pt1 pt2"
  by (simp add: exact_distance_def)

lemma distance_over:
  assumes "1 / 2 + 1 / 2 ^ 20 \<le> exact_distance pt1 pt2"
  shows "1 / 2 < distance pt1 pt2"
proof -
  define a where "a = px pt1 - px pt2"
  define b where "b = py pt1 - py pt2"
  define xx where "xx = to_double ((to_float a)\<^sup>2)"
  define yy where "yy = to_double ((to_float b)\<^sup>2)"
  define ds where "ds = to_double (xx + yy)"
  define r where "r = sqrt ds"
  have d: "distance pt1 pt2 = to_double r"
    by (simp add: distance_def Let_def r_def ds_def xx_def yy_def a_def b_def power2_eq_square)
  from assms have "(1 / 2 + 1 / 2 ^ 20)\<^sup>2 \<le> (exact_distance pt1 pt2)\<^sup>2"
    by (intro power_mono) simp_all
  then have q: "(1 / 2 + 1 / 2 ^ 20)\<^sup>2 \<le> a\<^sup>2 + b\<^sup>2"
    by (simp add: exact_distance_sq a_def b_def)
  have x: "(to_float a)\<^sup>2 - (to_float a)\<^sup>2 / 2 ^ 53 - 1 / 2 ^ 100 \<le> xx"
    unfolding xx_def by (rule to_double_lower) simp_all
  have y: "(to_float b)\<^sup>2 - (to_float b)\<^sup>2 / 2 ^ 53 - 1 / 2 ^ 100 \<le> yy"
    unfolding yy_def by (rule to_double_lower) simp_all
  note sum_squares_lower [OF q to_float_sq_lower [of a] to_float_sq_lower [of b] x y]
  moreover have "(1 / 4 + 1 / 2 ^ 21 :: real) \<le>
      (1 / 2 + 1 / 2 ^ 20)\<^sup>2 * (1 - 1 / 2 ^ 22) * (1 - 1 / 2 ^ 53) - 1 / 2 ^ 98"
    by (simp add: power2_eq_square)
  ultimately have s: "1 / 4 + 1 / 2 ^ 21 \<le> xx + yy" by (rule order_trans [rotated])
  have "(1 / 4 + 1 / 2 ^ 21) - (1 / 4 + 1 / 2 ^ 21) / 2 ^ 53 - 1 / 2 ^ 100 \<le> ds"
    unfolding ds_def using s by (rule to_double_lower) simp
  moreover have "((1 / 2 + 1 / 2 ^ 23)\<^sup>2 :: real) \<le>
      (1 / 4 + 1 / 2 ^ 21) - (1 / 4 + 1 / 2 ^ 21) / 2 ^ 53 - 1 / 2 ^ 100"
    by (simp add: power2_eq_square)
  ultimately have "(1 / 2 + 1 / 2 ^ 23)\<^sup>2 \<le> ds" by (rule order_trans [rotated])
  then have r: "1 / 2 + 1 / 2 ^ 23 \<le> r" unfolding r_def by (rule real_le_rsqrt)
  have "(1 / 2 + 1 / 2 ^ 23) - (1 / 2 + 1 / 2 ^ 23) / 2 ^ 53 - 1 / 2 ^ 100 \<le> to_double r"
    using r by (rule to_double_lower) simp
  moreover have "(1 / 2 :: real) < (1 / 2 + 1 / 2 ^ 23) - (1 / 2 + 1 / 2 ^ 23) / 2 ^ 53 - 1 / 2 ^ 100"
    by simp
  ultimately show ?thesis unfolding d by (rule less_le_trans [rotated])
qed

lemma distance_under:
  assumes "exact_distance pt1 pt2 \<le> 1 / 2 - 1 / 2 ^ 20"
  shows "distance pt1 pt2 \<le> 1 / 2"
proof -
  define a where "a = px pt1 - px pt2"
  define b where "b = py pt1 - py pt2"
  define xx where "xx = to_double ((to_float a)\<^sup>2)"
  define yy where "yy = to_double ((to_float b)\<^sup>2)"
  define ds where "ds = to_double (xx + yy)"
  define r where "r = sqrt ds"
  have d: "distance pt1 pt2 = to_double r"
    by (simp add: distance_def Let_def r_def ds_def xx_def yy_def a_def b_def power2_eq_square)
  from assms exact_distance_nonneg [of pt1 pt2]
  have "(exact_distance pt1 pt2)\<^sup>2 \<le> (1 / 2 - 1 / 2 ^ 20)\<^sup>2"
    by (intro power_mono) simp_all
  then have q: "a\<^sup>2 + b\<^sup>2 \<le> (1 / 2 - 1 / 2 ^ 20)\<^sup>2"
    by (simp add: exact_distance_sq a_def b_def)
  have x: "xx \<le> (to_float a)\<^sup>2 + (to_float a)\<^sup>2 / 2 ^ 53 + 1 / 2 ^ 100"
    unfolding xx_def by (rule to_double_upper) simp_all
  have y: "yy \<le> (to_float b)\<^sup>2 + (to_float b)\<^sup>2 / 2 ^ 53 + 1 / 2 ^ 100"
    unfolding yy_def by (rule to_double_upper) simp_all
  have s0: "0 \<le> xx + yy" unfolding xx_def yy_def by (simp add: to_double_nonneg)
  note sum_squares_upper [OF q to_float_sq_upper [of a] to_float_sq_upper [of b] x y]
  moreover have "(1 / 2 - 1 / 2 ^ 20)\<^sup>2 * (1 + 1 / 2 ^ 22) * (1 + 1 / 2 ^ 53) + 1 / 2 ^ 97 \<le>
      (1 / 4 - 1 / 2 ^ 21 :: real)"
    by (simp add: power2_eq_square)
  ultimately have s: "xx + yy \<le> 1 / 4 - 1 / 2 ^ 21" by (rule order_trans)
  have "ds \<le> (1 / 4 - 1 / 2 ^ 21) + (1 / 4 - 1 / 2 ^ 21) / 2 ^ 53 + 1 / 2 ^ 100"
    unfolding ds_def using s s0 by (rule to_double_upper)
  moreover have "(1 / 4 - 1 / 2 ^ 21) + (1 / 4 - 1 / 2 ^ 21) / 2 ^ 53 + 1 / 2 ^ 100 \<le>
      ((1 / 2 - 1 / 2 ^ 23)\<^sup>2 :: real)"
    by (simp add: power2_eq_square)
  ultimately have "ds \<le> (1 / 2 - 1 / 2 ^ 23)\<^sup>2" by (rule order_trans)
  then have r: "r \<le> 1 / 2 - 1 / 2 ^ 23" unfolding r_def by (intro real_le_lsqrt) simp_all
  have r0: "0 \<le> r" unfolding r_def ds_def using s0 by (simp add: to_double_nonneg)
  have "to_double r \<le> (1 / 2 - 1 / 2 ^ 23) + (1 / 2 - 1 / 2 ^ 23) / 2 ^ 53 + 1 / 2 ^ 100"
    using r r0 by (rule to_double_upper)
  moreover have "(1 / 2 - 1 / 2 ^ 23) + (1 / 2 - 1 / 2 ^ 23) / 2 ^ 53 + 1 / 2 ^ 100 \<le> (1 / 2 :: real)"
    by simp
  ultimately show ?thesis unfolding d by (rule order_trans)
qed


subsection \<open>Reverse check\<close>

lemma flow_back_loop_Some:
  "flow_back_loop status reverse_status prev reverse_pts i = Some st' \<Longrightarrow>
   length st' = length status \<and>
   (\<forall>k<length status. st' ! k =
      (if i \<le> k then
         (if status ! k \<noteq> 0 \<and> reverse_status ! k \<noteq> 0 \<and> distance (prev ! k) (reverse_pts ! k) \<le> 1 / 2
          then 1 else 0)
       else status ! k))"
proof (induction status reverse_status prev reverse_pts i arbitrary: st' rule: flow_back_loop.induct)
  case (1 status reverse_status prev reverse_pts i)
  note unf = flow_back_loop.simps [of status reverse_status prev reverse_pts i]
  show ?case
  proof (cases "i < length status")
    case False
    with "1.prems" show ?thesis by (simp add: unf)
  next
    case True
    define v :: uchar where
      "v = (if status ! i \<noteq> 0 \<and> reverse_status ! i \<noteq> 0 \<and> distance (prev ! i) (reverse_pts ! i) \<le> 1 / 2
            then 1 else 0)"
    have r: "flow_back_loop (status[i := v]) reverse_status prev reverse_pts (i + 1) = Some st'"
      using "1.prems" True by (auto simp: unf v_def split: if_splits)
    have ih: "length st' = length (status[i := v]) \<and>
      (\<forall>k<length (status[i := v]). st' ! k =
        (if i + 1 \<le> k then
           (if status[i := v] ! k \<noteq> 0 \<and> reverse_status ! k \<noteq> 0 \<and>
               distance (prev ! k) (reverse_pts ! k) \<le> 1 / 2 then 1 else 0)
         else status[i := v] ! k))"
    proof (cases "status ! i \<noteq> 0")
      case False
      then have v0: "v = 0" by (simp add: v_def)
      from "1.IH"(3) [OF True False, of st'] r show ?thesis by (simp add: v0)
    next
      case s: True
      with "1.prems" True have rl: "i < length reverse_status"
        by (auto simp: unf split: if_splits)
      show ?thesis
      proof (cases "reverse_status ! i \<noteq> 0")
        case False
        then have v0: "v = 0" by (simp add: v_def)
        from "1.IH"(2) [OF True s rl False, of st'] r show ?thesis by (simp add: v0)
      next
        case rs: True
        with "1.prems" True s rl have pl: "i < length prev \<and> i < length reverse_pts"
          by (auto simp: unf split: if_splits)
        have vd: "v = (if distance (prev ! i) (reverse_pts ! i) \<le> 1 / 2 then 1 else 0)"
          using s rs by (simp add: v_def)
        from "1.IH"(1) [OF True s rl rs pl, of st'] r show ?thesis by (simp add: vd)
      qed
    qed
    show ?thesis
    proof (intro conjI allI impI)
      show "length st' = length status" using ih by simp
    next
      fix k assume k: "k < length status"
      show "st' ! k =
        (if i \<le> k then
           (if status ! k \<noteq> 0 \<and> reverse_status ! k \<noteq> 0 \<and> distance (prev ! k) (reverse_pts ! k) \<le> 1 / 2
            then 1 else 0)
         else status ! k)"
      proof (cases "k = i")
        case True
        with ih k show ?thesis by (simp add: v_def)
      next
        case False
        with ih k show ?thesis by auto
      qed
    qed
  qed
qed

lemma optical_flow_arms:
  "optical_flow e s =
     (let (cur, status) = flow_forward (flow_backend e) s
      in if FLOW_BACK e \<noteq> 0 then map_option (Pair cur) (reverse_check (flow_backend e) s cur status)
         else Some (cur, status))"
  by (auto simp: optical_flow_def flow_backend_def map_option_case
      split: prod.splits option.splits bind_splits)

lemma ex_gate:
  "optical_flow ((ex_env (ex_lk (shift 1) ex_back))\<lparr>FLOW_BACK := 1\<rparr>) ex_state =
     Some ([Point2f 6 5, Point2f 2 5], [1, 0])"
  by (simp add: optical_flow_def flow_forward_def reverse_check_def ex_env_def ex_state_def ex_lk_def
      shift_def ex_back_def FeatureTracker_def flow_back_loop.simps ex_distance)

subsection \<open>Forward pass and dispatch\<close>

lemma count_succ_filter:
  "count_succ status n = n + int (length (filter (\<lambda>st. st \<noteq> 0) status))"
  by (induction status arbitrary: n) simp_all

lemma optical_flow_USE_VPI: "optical_flow (e\<lparr>USE_VPI := v\<rparr>) s = optical_flow e s"
  by (simp add: optical_flow_def cong: if_cong prod.case_cong)

lemma propagate_USE_VPI: "propagate (e\<lparr>USE_VPI := v\<rparr>) s = propagate e s"
  by (simp add: propagate_def optical_flow_USE_VPI)

lemma mask_walk_USE_VPI: "mask_walk (e\<lparr>USE_VPI := v\<rparr>) xs s = mask_walk e xs s"
  by (induction xs arbitrary: s) (simp_all cong: if_cong)

lemma setMask_USE_VPI: "setMask (e\<lparr>USE_VPI := v\<rparr>) s = setMask e s"
  by (simp add: setMask_def mask_walk_USE_VPI)

lemma detect_arms:
  "detect e s =
     (if MAX_CNT e - int (length (cur_pts s)) > 0 then
        (if USE_GPU e = 0 then goodFeaturesToTrack e else gpuCornersDetector e)
          (cur_img s) (MAX_CNT e - int (length (cur_pts s))) (MIN_DIST e) (mask_m s)
      else [])"
  by (simp add: detect_def Let_def)

lemma detect_USE_VPI: "detect (e\<lparr>USE_VPI := v\<rparr>) s = detect e s"
  by (simp add: detect_arms)

lemma update_tracks_USE_VPI: "update_tracks (e\<lparr>USE_VPI := v\<rparr>) s = update_tracks e s"
  by (simp add: update_tracks_def propagate_USE_VPI setMask_USE_VPI detect_USE_VPI)

lemma stereo_flow_USE_VPI: "stereo_flow lk (e\<lparr>USE_VPI := v\<rparr>) img s = stereo_flow lk e img s"
  by (simp add: stereo_flow_def cong: if_cong prod.case_cong)

lemma stereo_stage_USE_VPI: "stereo_stage (e\<lparr>USE_VPI := v\<rparr>) img s = stereo_stage e img s"
  by (simp add: stereo_stage_def stereo_flow_USE_VPI cong: if_cong)

subsection \<open>Evaluating a frame on the examples\<close>

lemma cvRound_int [simp]: "cvRound (of_int n) = n"
  by (simp add: cvRound_def Let_def)

lemma cvRound_numeral [simp]: "cvRound (numeral n) = numeral n"
  using cvRound_int [of "numeral n"] by simp

lemma cvRound_zero_one [simp]: "cvRound 0 = 0" "cvRound 1 = 1"
  using cvRound_int [of 0] cvRound_int [of 1] by simp_all

lemmas ex_defs = ex_env_def ex_mono_def ex_state_def ex_lk_def FeatureTracker_def shift_def ex_img_def
  ex_no_img_def ex_camera_def ex_circle_def

lemmas frame_defs = trackImage_def update_tracks_def propagate_def optical_flow_def flow_forward_def
  reverse_check_def setMask_def detect_def addPoints_def update_velocity_def ptsVelocity_def
  roll_forward_def build_report_def stereo_stage_def stereo_flow_def
  Mat_at_def Mat_empty_def toPoint_def nth_opt_def emplace_back_def INT_MAX_def inBorder_iff
  reduceVector_eq

lemmas loop_simps = border_loop.simps collect_loop.simps insert_loop.simps velocity_loop.simps
  left_map_loop.simps report_loop.simps flow_back_loop.simps stereo_back_loop.simps

lemma cvRound_ex2: "cvRound (7 / 4) = 2"
  by (simp add: cvRound_def Let_def)

lemma ex_edge_flow:
  "optical_flow ((ex_env (ex_lk (shift 1) ex_edge_back))\<lparr>FLOW_BACK := 1\<rparr>) ex_edge =
     Some ([Point2f (7 / 4) 4, Point2f 9 4], [1, 1])"
  by (simp add: optical_flow_def flow_forward_def reverse_check_def ex_env_def ex_edge_def ex_lk_def
      shift_def ex_edge_back_def FeatureTracker_def flow_back_loop.simps ex_distance distance_self)

lemma ex_propagate_edge:
  "propagate ((ex_env (ex_lk (shift 1) ex_edge_back))\<lparr>FLOW_BACK := 1\<rparr>) ex_edge =
     Some (ex_edge\<lparr>prev_pts := [Point2f (3 / 4) 4], cur_pts := [Point2f (7 / 4) 4], ids := [7],
                     track_cnt := [1]\<rparr>)"
  by (simp add: propagate_def ex_edge_flow border_loop.simps reduceVector_eq inBorder_iff cvRound_ex2)
     (simp add: ex_edge_def FeatureTracker_def inBorder_iff cvRound_ex2 kept_def)

lemma ex_propagate_gate:
  "propagate ((ex_env (ex_lk (shift 1) ex_back))\<lparr>FLOW_BACK := 1\<rparr>) ex_state =
     Some (ex_state\<lparr>prev_pts := [Point2f 5 5], cur_pts := [Point2f 6 5], ids := [7], track_cnt := [1]\<rparr>)"
  by (simp add: propagate_def ex_gate border_loop.simps reduceVector_eq inBorder_iff)
     (simp add: ex_state_def FeatureTracker_def inBorder_iff kept_def)

lemma ex_edge_passes:
  "flow_forward (flow_backend ((ex_env (ex_lk (shift 1) ex_edge_back))\<lparr>FLOW_BACK := 1\<rparr>)) ex_edge =
     ([Point2f (7 / 4) 4, Point2f 9 4], [1, 1])"
  "flow_backend ((ex_env (ex_lk (shift 1) ex_edge_back))\<lparr>FLOW_BACK := 1\<rparr>)
     (cur_img ex_edge) (prev_img ex_edge) [Point2f (7 / 4) 4, Point2f 9 4] (Some (prev_pts ex_edge)) 1 =
     ([Point2f (1 / 4 - 1 / 2 ^ 26) 4, Point2f 8 4], [1, 1])"
  by (simp_all add: flow_forward_def flow_backend_def ex_env_def ex_edge_def ex_lk_def shift_def
      ex_edge_back_def FeatureTracker_def)


lemma ex_trackImage_mono:
  "map_option fst (trackImage (ex_env (ex_lk (shift 1) id)) 1 ex_img ex_no_img ex_mono) =
     Some [7 \<mapsto> [(0, [3 / 5, 1 / 2, 1, 6, 5, 0, 0])], 8 \<mapsto> [(0, [1 / 5, 1 / 2, 1, 2, 5, 0, 0])]]"
  by (simp add: frame_defs ex_defs loop_simps)

subsection \<open>Outlier feedback\<close>

lemma length_outlier_status [simp]: "length (outlier_status idv R) = length idv"
  by (induction idv) simp_all

lemma kept_outlier_status:
  "kept v (outlier_status idv R) = map fst (filter (\<lambda>p. snd p \<notin> R) (zip v idv))"
proof (induction idv arbitrary: v)
  case Nil
  then show ?case by simp
next
  case (Cons i idv)
  then show ?case by (cases v) simp_all
qed

lemma kept_ids_outlier_status: "kept idv (outlier_status idv R) = filter (\<lambda>i. i \<notin> R) idv"
  by (induction idv) simp_all

lemma kept_outlier_status_disjoint:
  "R \<inter> set idv = {} \<Longrightarrow> length v \<le> length idv \<Longrightarrow> kept v (outlier_status idv R) = v"
proof (induction idv arbitrary: v)
  case Nil
  then show ?case by simp
next
  case (Cons i idv)
  then show ?case by (cases v) auto
qed

lemma outlier_status_absent:
  "D \<inter> set idv = {} \<Longrightarrow> outlier_status idv (R \<union> D) = outlier_status idv R"
  by (induction idv) auto

lemma filter_zip3:
  "length ps = length idv \<Longrightarrow> length cs = length idv \<Longrightarrow>
   zip (filter (\<lambda>i. i \<notin> R) idv)
       (zip (map fst (filter (\<lambda>p. snd p \<notin> R) (zip ps idv)))
            (map fst (filter (\<lambda>p. snd p \<notin> R) (zip cs idv)))) =
   filter (\<lambda>t. fst t \<notin> R) (zip idv (zip ps cs))"
proof (induction idv arbitrary: ps cs)
  case Nil
  then show ?case by simp
next
  case (Cons i idv)
  then obtain p ps' c cs' where "ps = p # ps'" "cs = c # cs'"
    by (cases ps; cases cs) auto
  with Cons show ?case by simp
qed

lemma length_filter_zip_fst:
  "length ps = length idv \<Longrightarrow>
   length (filter (\<lambda>p. snd p \<notin> R) (zip ps idv)) = length (filter (\<lambda>i. i \<notin> R) idv)"
proof (induction idv arbitrary: ps)
  case Nil
  then show ?case by simp
next
  case (Cons i idv)
  then show ?case by (cases ps) auto
qed

lemma ex_removed_eval:
  "map_option ids ex_removed = Some [8] \<and>
   map_option prev_pts ex_removed = Some [Point2f 2 5] \<and>
   map_option track_cnt ex_removed = Some [2] \<and>
   map_option cur_pts ex_removed = Some [Point2f 6 5, Point2f 2 5] \<and>
   map_option pts_velocity ex_removed = Some [Point2f 0 0, Point2f 0 0]"
  by (simp add: ex_removed_def removeOutliers_def Let_def frame_defs ex_defs loop_simps)

subsection \<open>Velocity\<close>

lemma insert_loop_total:
  "length idv \<le> length pts \<Longrightarrow> \<exists>m'. insert_loop idv pts m i = Some m'"
proof (induction idv pts m i rule: insert_loop.induct)
  case (1 idv pts cur_id_pts i)
  show ?case
  proof (cases "i < length idv")
    case False
    then show ?thesis by (simp add: insert_loop.simps [of idv pts cur_id_pts i])
  next
    case True
    with "1.prems" have p: "i < length pts" by simp
    from "1.IH" [OF True p "1.prems"] True p show ?thesis
      by (simp add: insert_loop.simps [of idv pts cur_id_pts i])
  qed
qed

lemma zero_loop_replicate: "zero_loop ps velocity = velocity @ replicate (length ps) (Point2f 0 0)"
  by (induction ps arbitrary: velocity) (simp_all add: replicate_app_Cons_same)

lemma velocity_loop_Some:
  "velocity_loop idv pts prev_id_pts dt velocity i = Some r \<Longrightarrow> i \<le> length pts \<Longrightarrow>
   r = velocity @ map (\<lambda>k. rule_velocity prev_id_pts dt (idv ! k) (pts ! k)) [i..<length pts]"
proof (induction idv pts prev_id_pts dt velocity i arbitrary: r rule: velocity_loop.induct)
  case (1 idv pts prev_id_pts dt velocity i)
  note unf = velocity_loop.simps [of idv pts prev_id_pts dt velocity i]
  show ?case
  proof (cases "i < length pts")
    case False
    with "1.prems" show ?thesis by (simp add: unf)
  next
    case True
    with "1.prems" have il: "i < length idv" by (auto simp: unf split: if_splits)
    have up: "[i..<length pts] = i # [i + 1..<length pts]"
      using True by (simp add: upt_conv_Cons)
    show ?thesis
    proof (cases "prev_id_pts (idv ! i)")
      case None
      with "1.prems" True il have
        "velocity_loop idv pts prev_id_pts dt (velocity @ [Point2f 0 0]) (i + 1) = Some r"
        by (simp add: unf)
      from "1.IH"(1) [OF True il None this] True show ?thesis
        by (simp add: up rule_velocity_def None)
    next
      case (Some q)
      with "1.prems" True il have d: "dt \<noteq> 0" by (auto simp: unf split: if_splits)
      with "1.prems" True il Some have
        "velocity_loop idv pts prev_id_pts dt
           (velocity @ [Point2f ((px (pts ! i) - px q) / dt) ((py (pts ! i) - py q) / dt)]) (i + 1) = Some r"
        by (simp add: unf)
      from "1.IH"(2) [OF True il Some d this] True show ?thesis
        by (simp add: up rule_velocity_def Some)
    qed
  qed
qed

lemma velocity_loop_total:
  "length pts \<le> length idv \<Longrightarrow> dt \<noteq> 0 \<Longrightarrow>
   \<exists>r. velocity_loop idv pts prev_id_pts dt velocity i = Some r"
proof (induction idv pts prev_id_pts dt velocity i rule: velocity_loop.induct)
  case (1 idv pts prev_id_pts dt velocity i)
  note unf = velocity_loop.simps [of idv pts prev_id_pts dt velocity i]
  show ?case
  proof (cases "i < length pts")
    case False
    then show ?thesis by (simp add: unf)
  next
    case True
    with "1.prems" have il: "i < length idv" by simp
    show ?thesis
    proof (cases "prev_id_pts (idv ! i)")
      case None
      from "1.IH"(1) [OF True il None "1.prems"] True il None show ?thesis
        by (simp add: unf)
    next
      case (Some q)
      from "1.IH"(2) [OF True il Some "1.prems"(2) "1.prems"] True il Some "1.prems"(2) show ?thesis
        by (simp add: unf)
    qed
  qed
qed

lemma ptsVelocity_SomeD:
  assumes "ptsVelocity s idv pts prev_id_pts = Some (velocity, cur_id_pts)"
  shows "velocity =
     (if prev_id_pts \<noteq> Map.empty then
        map (\<lambda>k. rule_velocity prev_id_pts (cur_time s - prev_time s) (idv ! k) (pts ! k)) [0..<length pts]
      else replicate (length (cur_pts s)) (Point2f 0 0))"
  using assms velocity_loop_Some [of idv pts prev_id_pts "cur_time s - prev_time s" "[]" 0 velocity]
  by (auto simp: ptsVelocity_def bind_eq_Some_conv zero_loop_replicate Let_def split: if_splits)

subsection \<open>Coverage mask\<close>

lemma collect_loop_Some:
  "collect_loop s acc i = Some r \<Longrightarrow> r = acc @ drop i (tracks_of s)"
proof (induction s acc i arbitrary: r rule: collect_loop.induct)
  case (1 s cnt_pts_id i)
  note unf = collect_loop.simps [of s cnt_pts_id i]
  show ?case
  proof (cases "i < length (cur_pts s)")
    case False
    with "1.prems" show ?thesis by (simp add: unf tracks_of_def)
  next
    case True
    with "1.prems" have l: "i < length (track_cnt s) \<and> i < length (ids s)"
      by (auto simp: unf split: if_splits)
    with True "1.prems" have
      "collect_loop s (cnt_pts_id @ [(track_cnt s ! i, cur_pts s ! i, ids s ! i)]) (i + 1) = Some r"
      by (simp add: unf)
    from "1.IH" [OF True l this]
    have r: "r = (cnt_pts_id @ [(track_cnt s ! i, cur_pts s ! i, ids s ! i)]) @ drop (i + 1) (tracks_of s)" .
    have "i < length (tracks_of s)" using True l by (simp add: tracks_of_def)
    then have "drop i (tracks_of s) = tracks_of s ! i # drop (i + 1) (tracks_of s)"
      by (simp add: Cons_nth_drop_Suc)
    moreover have "tracks_of s ! i = (track_cnt s ! i, cur_pts s ! i, ids s ! i)"
      using True l by (simp add: tracks_of_def)
    ultimately show ?thesis using r by simp
  qed
qed

lemma mask_walk_greedy:
  "mask_walk e xs s =
     (case greedy_select (cv_circle e) (MIN_DIST e) (mask_m s) xs of
        None \<Rightarrow> None
      | Some (acc, m') \<Rightarrow>
          Some (s\<lparr>cur_pts := cur_pts s @ map (\<lambda>t. fst (snd t)) acc,
                  ids := ids s @ map (\<lambda>t. snd (snd t)) acc,
                  track_cnt := track_cnt s @ map fst acc,
                  mask_m := m'\<rparr>))"
proof (induction xs arbitrary: s)
  case Nil
  show ?case by simp
next
  case (Cons t ts)
  show ?case
  proof (cases "Mat_at (mask_m s) (toPoint (fst (snd t)))")
    case None
    then show ?thesis by simp
  next
    case (Some v)
    show ?thesis
    proof (cases "v = 255")
      case False
      with Some Cons [of s] show ?thesis by simp
    next
      case True
      with Some Cons [of "s\<lparr>cur_pts := cur_pts s @ [fst (snd t)],
            ids := ids s @ [snd (snd t)],
            track_cnt := track_cnt s @ [fst t],
            mask_m := cv_circle e (mask_m s) (toPoint (fst (snd t))) (MIN_DIST e) 0\<rparr>"]
      show ?thesis by (simp split: option.splits)
    qed
  qed
qed

lemma tracks_of_maps:
  "zip (map fst acc) (zip (map (\<lambda>t. fst (snd t)) acc) (map (\<lambda>t. snd (snd t)) acc)) = acc"
  by (induction acc) simp_all

lemma greedy_select_subseq:
  "greedy_select circle r m xs = Some (acc, m') \<Longrightarrow> subseq acc xs"
proof (induction xs arbitrary: m acc)
  case Nil
  then show ?case by simp
next
  case (Cons t ts)
  then show ?case
    by (auto split: option.splits if_splits)
qed






subsection \<open>The track vectors along a frame\<close>

lemma subseq_set_mono: "subseq xs ys \<Longrightarrow> set xs \<subseteq> set ys"
  by (auto elim: list_emb_set)

lemma subseq_distinct_mono: "subseq xs ys \<Longrightarrow> distinct ys \<Longrightarrow> distinct xs"
proof (induction rule: list_emb.induct)
  case (list_emb_Cons2 x y xs ys)
  then show ?case using subseq_set_mono [of xs ys] by auto
qed simp_all

lemma subseq_kept: "subseq (kept v status) v"
proof (induction v arbitrary: status)
  case Nil
  show ?case by simp
next
  case (Cons a v)
  show ?case
  proof (cases status)
    case Nil
    then show ?thesis by simp
  next
    case (Cons st status')
    with Cons.IH [of status'] show ?thesis by (auto intro: list_emb_Cons)
  qed
qed

lemma addPoints_loop_Some:
  "addPoints_loop ps s = Some s' \<Longrightarrow>
   s' = s\<lparr>cur_pts := cur_pts s @ ps,
          ids := ids s @ map (\<lambda>k. n_id s + int k) [0..<length ps],
          n_id := n_id s + int (length ps),
          track_cnt := track_cnt s @ replicate (length ps) 1\<rparr>"
proof (induction ps arbitrary: s)
  case Nil
  then show ?case by simp
next
  case (Cons p ps)
  let ?s1 = "s\<lparr>cur_pts := cur_pts s @ [p], ids := ids s @ [n_id s], n_id := n_id s + 1,
                track_cnt := track_cnt s @ [1]\<rparr>"
  from Cons.prems have r: "addPoints_loop ps ?s1 = Some s'"
    by (simp split: if_splits)
  have m: "map (\<lambda>k. n_id s + int k) [0..<Suc (length ps)] =
           n_id s # map (\<lambda>k. n_id s + 1 + int k) [0..<length ps]"
    by (simp add: upt_conv_Cons map_Suc_upt [symmetric] del: upt_Suc)
  from Cons.IH [OF r] show ?case
    by (simp add: m replicate_app_Cons_same del: upt_Suc)
qed

lemma setMask_SomeD:
  assumes "setMask e s = Some s'"
  shows "greedy_select (cv_circle e) (MIN_DIST e) \<lparr>rows = row s, cols = col s, pixel = (\<lambda>r c. 255)\<rparr>
           (std_sort e (tracks_of s)) = Some (tracks_of s', mask_m s') \<and>
     subseq (tracks_of s') (std_sort e (tracks_of s)) \<and>
     cur_pts s' = map (\<lambda>t. fst (snd t)) (tracks_of s') \<and>
     ids s' = map (\<lambda>t. snd (snd t)) (tracks_of s') \<and>
     track_cnt s' = map fst (tracks_of s') \<and>
     s' = s\<lparr>mask_m := mask_m s', cur_pts := cur_pts s', ids := ids s', track_cnt := track_cnt s'\<rparr>"
proof -
  from assms obtain cnt_pts_id where
    c: "collect_loop s [] 0 = Some cnt_pts_id" and
    w: "mask_walk e (std_sort e cnt_pts_id)
          (s\<lparr>mask_m := \<lparr>rows = row s, cols = col s, pixel = (\<lambda>r c. 255)\<rparr>,
             cur_pts := [], ids := [], track_cnt := []\<rparr>) = Some s'"
    by (auto simp: setMask_def bind_eq_Some_conv)
  from collect_loop_Some [OF c] have t: "cnt_pts_id = tracks_of s" by simp
  from w [unfolded mask_walk_greedy t] obtain acc m' where
    g: "greedy_select (cv_circle e) (MIN_DIST e) \<lparr>rows = row s, cols = col s, pixel = (\<lambda>r c. 255)\<rparr>
          (std_sort e (tracks_of s)) = Some (acc, m')" and
    s': "s' = s\<lparr>mask_m := m', cur_pts := map (\<lambda>t. fst (snd t)) acc,
               ids := map (\<lambda>t. snd (snd t)) acc, track_cnt := map fst acc\<rparr>"
    by (auto split: option.splits)
  have a: "tracks_of s' = acc" by (simp add: s' tracks_of_def tracks_of_maps)
  from greedy_select_subseq [OF g] have "subseq acc (std_sort e (tracks_of s))" .
  with g a show ?thesis by (simp add: s')
qed

lemma map_third_zip:
  "map (\<lambda>t. snd (snd t)) (zip as (zip bs cs)) = take (min (length as) (length bs)) cs"
proof (induction as arbitrary: bs cs)
  case Nil
  show ?case by simp
next
  case (Cons a as)
  show ?case
    by (cases bs; cases cs) (simp_all add: Cons.IH)
qed

lemma ids_tracks_of:
  "map (\<lambda>t. snd (snd t)) (tracks_of s) = take (min (length (track_cnt s)) (length (cur_pts s))) (ids s)"
  by (simp add: tracks_of_def map_third_zip)

lemma setMask_ids:
  assumes "setMask e s = Some s'" and "mset (std_sort e (tracks_of s)) = mset (tracks_of s)"
  shows "set (ids s') \<subseteq> set (ids s) \<and> (distinct (ids s) \<longrightarrow> distinct (ids s')) \<and>
     length (cur_pts s') = length (ids s') \<and> length (track_cnt s') = length (ids s')"
proof -
  let ?f = "\<lambda>t :: int \<times> Point2f \<times> int. snd (snd t)"
  from setMask_SomeD [OF assms(1)] have
    sub: "subseq (tracks_of s') (std_sort e (tracks_of s))" and
    i: "ids s' = map ?f (tracks_of s')" and
    c: "cur_pts s' = map (\<lambda>t. fst (snd t)) (tracks_of s')" and
    t: "track_cnt s' = map fst (tracks_of s')"
    by blast+
  from sub have sm: "subseq (ids s') (map ?f (std_sort e (tracks_of s)))"
    unfolding i by (rule subseq_map)
  from assms(2) have ms: "mset (map ?f (std_sort e (tracks_of s))) = mset (map ?f (tracks_of s))"
    by simp
  have "set (map ?f (std_sort e (tracks_of s))) = set (map ?f (tracks_of s))"
    using ms by (rule mset_eq_setD)
  also have "\<dots> \<subseteq> set (ids s)"
    unfolding ids_tracks_of by (rule set_take_subset)
  finally have s1: "set (ids s') \<subseteq> set (ids s)"
    using subseq_set_mono [OF sm] by blast
  have d: "distinct (ids s')" if "distinct (ids s)"
  proof -
    from that have "distinct (map ?f (tracks_of s))"
      unfolding ids_tracks_of by simp
    with ms have "distinct (map ?f (std_sort e (tracks_of s)))"
      using mset_eq_imp_distinct_iff by blast
    with sm show ?thesis by (rule subseq_distinct_mono)
  qed
  have "length (cur_pts s') = length (ids s')" "length (track_cnt s') = length (ids s')"
    by (subst c, subst i, simp) (subst t, subst i, simp)
  with s1 d show ?thesis by blast
qed

lemma propagate_explicit:
  assumes "propagate e s = Some s1"
  obtains a b c d where
    "s1 = s\<lparr>prev_pts := a, cur_pts := b, ids := c, track_cnt := d\<rparr>" "subseq c (ids s)"
proof -
  from assms obtain cur status status' where
    "s1 = s\<lparr>prev_pts := kept (prev_pts s) status', cur_pts := kept cur status',
             ids := kept (ids s) status', track_cnt := kept (track_cnt s) status'\<rparr>"
    by (rule propagate_SomeD)
  then show ?thesis
    by (rule that) (rule subseq_kept)
qed

lemma setMask_explicit:
  assumes "setMask e s = Some s2"
  obtains m acc where
    "s2 = s\<lparr>mask_m := m, cur_pts := map (\<lambda>t. fst (snd t)) acc,
            ids := map (\<lambda>t. snd (snd t)) acc, track_cnt := map fst acc\<rparr>"
    "mset (std_sort e (tracks_of s)) = mset (tracks_of s) \<longrightarrow>
       set (map (\<lambda>t. snd (snd t)) acc) \<subseteq> set (ids s) \<and>
       (distinct (ids s) \<longrightarrow> distinct (map (\<lambda>t. snd (snd t)) acc))"
proof -
  from assms(1) obtain cnt_pts_id where
    c: "collect_loop s [] 0 = Some cnt_pts_id" and
    w: "mask_walk e (std_sort e cnt_pts_id)
          (s\<lparr>mask_m := \<lparr>rows = row s, cols = col s, pixel = (\<lambda>r c. 255)\<rparr>,
             cur_pts := [], ids := [], track_cnt := []\<rparr>) = Some s2"
    by (auto simp: setMask_def bind_eq_Some_conv)
  from collect_loop_Some [OF c] have t: "cnt_pts_id = tracks_of s" by simp
  from w [unfolded mask_walk_greedy t] obtain acc m' where
    g: "greedy_select (cv_circle e) (MIN_DIST e) \<lparr>rows = row s, cols = col s, pixel = (\<lambda>r c. 255)\<rparr>
          (std_sort e (tracks_of s)) = Some (acc, m')" and
    s2: "s2 = s\<lparr>mask_m := m', cur_pts := map (\<lambda>t. fst (snd t)) acc,
               ids := map (\<lambda>t. snd (snd t)) acc, track_cnt := map fst acc\<rparr>"
    by (auto split: option.splits)
  have i: "ids s2 = map (\<lambda>t. snd (snd t)) acc" by (simp add: s2)
  have "mset (std_sort e (tracks_of s)) = mset (tracks_of s) \<longrightarrow>
       set (map (\<lambda>t. snd (snd t)) acc) \<subseteq> set (ids s) \<and>
       (distinct (ids s) \<longrightarrow> distinct (map (\<lambda>t. snd (snd t)) acc))"
    using setMask_ids [OF assms] unfolding i by blast
  with s2 show ?thesis by (rule that)
qed

lemma update_tracks_explicit:
  assumes "update_tracks e s = Some s'"
  obtains a m np acc where
    "s' = s\<lparr>mask_m := m, n_pts := np, prev_pts := a,
            cur_pts := map (\<lambda>t. fst (snd t)) acc @ np,
            ids := map (\<lambda>t. snd (snd t)) acc @ map (\<lambda>k. n_id s + int k) [0..<length np],
            track_cnt := map fst acc @ replicate (length np) 1,
            n_id := n_id s + int (length np)\<rparr>"
    "(\<forall>xs. mset (std_sort e xs) = mset xs) \<longrightarrow>
       set (map (\<lambda>t. snd (snd t)) acc) \<subseteq> set (ids s) \<and>
       (distinct (ids s) \<longrightarrow> distinct (map (\<lambda>t. snd (snd t)) acc))"
proof -
  from assms(1) obtain s1 aged s2 where
    p: "(if prev_pts s \<noteq> [] then propagate e s else Some s) = Some s1" and
    a: "incr_all (track_cnt s1) = Some aged" and
    m: "setMask e (s1\<lparr>track_cnt := aged\<rparr>) = Some s2" and
    n: "addPoints (s2\<lparr>n_pts := detect e s2\<rparr>) = Some s'"
    by (auto simp: update_tracks_def bind_eq_Some_conv)
  obtain a b c d where
    s1: "s1 = s\<lparr>prev_pts := a, cur_pts := b, ids := c, track_cnt := d\<rparr>" and c: "subseq c (ids s)"
  proof (cases "prev_pts s \<noteq> []")
    case True
    with p have "propagate e s = Some s1" by simp
    then show ?thesis by (rule propagate_explicit) (rule that)
  next
    case False
    with p have "s1 = s\<lparr>prev_pts := prev_pts s, cur_pts := cur_pts s, ids := ids s, track_cnt := track_cnt s\<rparr>"
      by simp
    then show ?thesis by (rule that) simp
  qed
  let ?s1 = "s1\<lparr>track_cnt := aged\<rparr>"
  from m obtain mk acc where
    s2: "s2 = ?s1\<lparr>mask_m := mk, cur_pts := map (\<lambda>t. fst (snd t)) acc,
            ids := map (\<lambda>t. snd (snd t)) acc, track_cnt := map fst acc\<rparr>" and
    sd: "mset (std_sort e (tracks_of ?s1)) = mset (tracks_of ?s1) \<longrightarrow>
       set (map (\<lambda>t. snd (snd t)) acc) \<subseteq> set (ids ?s1) \<and>
       (distinct (ids ?s1) \<longrightarrow> distinct (map (\<lambda>t. snd (snd t)) acc))"
    by (rule setMask_explicit)
  let ?np = "detect e s2"
  from n have "addPoints_loop ?np (s2\<lparr>n_pts := ?np\<rparr>) = Some s'" by (simp add: addPoints_def)
  from addPoints_loop_Some [OF this] have
    "s' = s\<lparr>mask_m := mk, n_pts := ?np, prev_pts := a,
            cur_pts := map (\<lambda>t. fst (snd t)) acc @ ?np,
            ids := map (\<lambda>t. snd (snd t)) acc @ map (\<lambda>k. n_id s + int k) [0..<length ?np],
            track_cnt := map fst acc @ replicate (length ?np) 1,
            n_id := n_id s + int (length ?np)\<rparr>"
    by (simp add: s2 s1)
  moreover have "(\<forall>xs. mset (std_sort e xs) = mset xs) \<longrightarrow>
       set (map (\<lambda>t. snd (snd t)) acc) \<subseteq> set (ids s) \<and>
       (distinct (ids s) \<longrightarrow> distinct (map (\<lambda>t. snd (snd t)) acc))"
  proof
    assume "\<forall>xs. mset (std_sort e xs) = mset xs"
    then have "mset (std_sort e (tracks_of ?s1)) = mset (tracks_of ?s1)" by blast
    with sd have sub: "set (map (\<lambda>t. snd (snd t)) acc) \<subseteq> set (ids ?s1)" and
      dis: "distinct (ids ?s1) \<longrightarrow> distinct (map (\<lambda>t. snd (snd t)) acc)"
      by blast+
    have "set (map (\<lambda>t. snd (snd t)) acc) \<subseteq> set (ids s)"
      using sub subseq_set_mono [OF c] by (auto simp: s1)
    moreover have "distinct (ids s) \<longrightarrow> distinct (map (\<lambda>t. snd (snd t)) acc)"
      using dis subseq_distinct_mono [OF c] by (auto simp: s1)
    ultimately show "set (map (\<lambda>t. snd (snd t)) acc) \<subseteq> set (ids s) \<and>
       (distinct (ids s) \<longrightarrow> distinct (map (\<lambda>t. snd (snd t)) acc))" by blast
  qed
  ultimately show ?thesis by (rule that)
qed

lemma undistortedPts_length: "undistortedPts pts cam = Some un \<Longrightarrow> length un = length pts"
proof (induction pts arbitrary: un)
  case Nil
  then show ?case by simp
next
  case (Cons p pts)
  then show ?case
    by (auto simp: bind_eq_Some_conv split: prod.splits if_splits)
qed

lemma insert_loop_dom:
  "insert_loop idv pts m i = Some m' \<Longrightarrow> dom m' = dom m \<union> set (drop i idv) \<and> length idv \<le> max i (length pts)"
proof (induction idv pts m i arbitrary: m' rule: insert_loop.induct)
  case (1 idv pts cur_id_pts i)
  note unf = insert_loop.simps [of idv pts cur_id_pts i]
  show ?case
  proof (cases "i < length idv")
    case False
    with "1.prems" show ?thesis by (simp add: unf)
  next
    case True
    with "1.prems" have p: "i < length pts" by (auto simp: unf split: if_splits)
    let ?m = "case cur_id_pts (idv ! i) of None \<Rightarrow> cur_id_pts(idv ! i \<mapsto> pts ! i) | Some q \<Rightarrow> cur_id_pts"
    from "1.prems" True p have "insert_loop idv pts ?m (i + 1) = Some m'"
      by (simp add: unf)
    from "1.IH" [OF True p this] have
      d: "dom m' = dom ?m \<union> set (drop (i + 1) idv)" and l: "length idv \<le> max (i + 1) (length pts)"
      by simp_all
    have "dom ?m = insert (idv ! i) (dom cur_id_pts)"
      by (auto split: option.splits)
    moreover have "drop i idv = idv ! i # drop (i + 1) idv"
      using True by (simp add: Cons_nth_drop_Suc)
    ultimately show ?thesis using d l p by auto
  qed
qed

subsection \<open>The report\<close>

lemma camera_ids_empty [simp]: "camera_ids c Map.empty = {}"
  by (simp add: camera_ids_def)

lemma camera_ids_emplace_back:
  "camera_ids c' (emplace_back ff i (c, v)) = camera_ids c' ff \<union> (if c' = c then {i} else {})"
  by (auto simp: camera_ids_def emplace_back_def split: option.splits if_splits)

lemma report_loop_camera_ids:
  "report_loop c idv un pts vel ff i = Some ff' \<Longrightarrow>
   camera_ids c' ff' = camera_ids c' ff \<union> (if c' = c then set (drop i idv) else {})"
proof (induction c idv un pts vel ff i arbitrary: ff' rule: report_loop.induct)
  case (1 camera_id idv un pts velocity ff i)
  note unf = report_loop.simps [of camera_id idv un pts velocity ff i]
  show ?case
  proof (cases "i < length idv")
    case False
    with "1.prems" show ?thesis by (simp add: unf)
  next
    case True
    with "1.prems" have l: "i < length un \<and> i < length pts \<and> i < length velocity"
      by (auto simp: unf split: if_splits)
    let ?ff = "emplace_back ff (idv ! i)
                (camera_id,
                 [px (un ! i), py (un ! i), 1, px (pts ! i), py (pts ! i),
                  px (velocity ! i), py (velocity ! i)])"
    from "1.prems" True l have "report_loop camera_id idv un pts velocity ?ff (i + 1) = Some ff'"
      by (simp add: unf)
    from "1.IH" [OF True l this] have
      "camera_ids c' ff' = camera_ids c' ?ff \<union> (if c' = camera_id then set (drop (i + 1) idv) else {})" .
    moreover have "drop i idv = idv ! i # drop (i + 1) idv"
      using True by (simp add: Cons_nth_drop_Suc)
    ultimately show ?thesis
      by (auto simp: camera_ids_emplace_back split: if_splits)
  qed
qed

lemma report_loop_total:
  "length idv \<le> length un \<Longrightarrow> length idv \<le> length pts \<Longrightarrow> length idv \<le> length vel \<Longrightarrow>
   \<exists>ff'. report_loop c idv un pts vel ff i = Some ff'"
proof (induction c idv un pts vel ff i rule: report_loop.induct)
  case (1 camera_id idv un pts velocity ff i)
  note unf = report_loop.simps [of camera_id idv un pts velocity ff i]
  show ?case
  proof (cases "i < length idv")
    case False
    then show ?thesis by (simp add: unf)
  next
    case True
    with "1.prems" have l: "i < length un \<and> i < length pts \<and> i < length velocity" by simp
    from "1.IH" [OF True l "1.prems"] obtain ff' where
      "report_loop camera_id idv un pts velocity
         (emplace_back ff (idv ! i)
            (camera_id,
             [px (un ! i), py (un ! i), 1, px (pts ! i), py (pts ! i),
              px (velocity ! i), py (velocity ! i)])) (i + 1) = Some ff'"
      by blast
    with True l show ?thesis by (simp add: unf)
  qed
qed

text \<open>Every observation of the result is one of the start or the entry of an index.\<close>

lemma report_loop_obs:
  "report_loop c idv un pts vel ff i = Some ff' \<Longrightarrow> ff' j = Some obs \<Longrightarrow> ob \<in> set obs \<Longrightarrow>
   (\<exists>obs0. ff j = Some obs0 \<and> ob \<in> set obs0) \<or>
   (\<exists>k. i \<le> k \<and> k < length idv \<and> idv ! k = j \<and> ob = (c, xyz_uv_velocity un pts vel k))"
proof (induction c idv un pts vel ff i arbitrary: ff' rule: report_loop.induct)
  case (1 camera_id idv un pts velocity ff i)
  note unf = report_loop.simps [of camera_id idv un pts velocity ff i]
  show ?case
  proof (cases "i < length idv")
    case False
    with "1.prems" show ?thesis by (simp add: unf)
  next
    case True
    with "1.prems" have l: "i < length un \<and> i < length pts \<and> i < length velocity"
      by (auto simp: unf split: if_splits)
    let ?ob = "(camera_id, xyz_uv_velocity un pts velocity i)"
    let ?ff = "emplace_back ff (idv ! i) ?ob"
    from "1.prems"(1) True l have "report_loop camera_id idv un pts velocity ?ff (i + 1) = Some ff'"
      by (simp add: unf xyz_uv_velocity_def)
    from "1.IH" [OF True l this [unfolded xyz_uv_velocity_def] "1.prems"(2,3)]
    have "(\<exists>obs0. ?ff j = Some obs0 \<and> ob \<in> set obs0) \<or>
      (\<exists>k. i + 1 \<le> k \<and> k < length idv \<and> idv ! k = j \<and> ob = (camera_id, xyz_uv_velocity un pts velocity k))"
      by (simp add: xyz_uv_velocity_def)
    then show ?thesis
    proof
      assume "\<exists>obs0. ?ff j = Some obs0 \<and> ob \<in> set obs0"
      then obtain obs0 where o: "?ff j = Some obs0" "ob \<in> set obs0" by blast
      show ?thesis
      proof (cases "j = idv ! i")
        case False
        with o show ?thesis by (simp add: emplace_back_def)
      next
        case j: True
        with o have "ob \<in> set (case ff j of None \<Rightarrow> [] | Some obs \<Rightarrow> obs) \<or> ob = ?ob"
          by (auto simp: emplace_back_def)
        then show ?thesis
        proof
          assume "ob \<in> set (case ff j of None \<Rightarrow> [] | Some obs \<Rightarrow> obs)"
          then show ?thesis by (cases "ff j") auto
        next
          assume "ob = ?ob"
          with j True show ?thesis by auto
        qed
      qed
    next
      assume "\<exists>k. i + 1 \<le> k \<and> k < length idv \<and> idv ! k = j \<and> ob = (camera_id, xyz_uv_velocity un pts velocity k)"
      then obtain k where k: "i + 1 \<le> k" "k < length idv" "idv ! k = j"
        "ob = (camera_id, xyz_uv_velocity un pts velocity k)" by blast
      from k(1) have "i \<le> k" by simp
      with k show ?thesis by blast
    qed
  qed
qed

subsection \<open>The stages of a frame in explicit form\<close>

lemma ptsVelocity_explicit:
  assumes "ptsVelocity s idv pts prev_id_pts = Some (velocity, cur_id_pts)"
  shows "dom cur_id_pts = set idv \<and> length idv \<le> length pts \<and>
     (prev_id_pts \<noteq> Map.empty \<longrightarrow> length pts \<le> length idv) \<and>
     velocity =
       (if prev_id_pts \<noteq> Map.empty then
          map (\<lambda>k. rule_velocity prev_id_pts (cur_time s - prev_time s) (idv ! k) (pts ! k)) [0..<length pts]
        else replicate (length (cur_pts s)) (Point2f 0 0))"
proof -
  from assms obtain m where m: "insert_loop idv pts Map.empty 0 = Some cur_id_pts"
    by (auto simp: ptsVelocity_def bind_eq_Some_conv)
  from insert_loop_dom [OF m] have d: "dom cur_id_pts = set idv" "length idv \<le> length pts"
    by simp_all
  have l: "length pts \<le> length idv" if "prev_id_pts \<noteq> Map.empty"
  proof (rule ccontr)
    assume "\<not> length pts \<le> length idv"
    then have "length idv < length pts" by simp
    have "velocity_loop idv pts prev_id_pts dt vel i = None" if "i \<le> length idv" for dt vel i
      using that \<open>length idv < length pts\<close>
    proof (induction idv pts prev_id_pts dt vel i rule: velocity_loop.induct)
      case (1 idv pts prev_id_pts dt velocity i)
      note unf = velocity_loop.simps [of idv pts prev_id_pts dt velocity i]
      from "1.prems" have p: "i < length pts" by simp
      show ?case
      proof (cases "i < length idv")
        case False
        with p show ?thesis by (simp add: unf)
      next
        case True
        show ?thesis
        proof (cases "prev_id_pts (idv ! i)")
          case None
          from "1.IH"(1) [OF p True None] "1.prems" True p None show ?thesis
            by (simp add: unf)
        next
          case (Some q)
          show ?thesis
          proof (cases "dt = 0")
            case True
            with \<open>i < length idv\<close> p Some show ?thesis by (subst unf) simp
          next
            case False
            from "1.IH"(2) [OF p True Some False] "1.prems" True p Some False show ?thesis
              by (simp add: unf)
          qed
        qed
      qed
    qed
    from this [of 0] assms that show False
      by (simp add: ptsVelocity_def bind_eq_Some_conv Let_def)
  qed
  from ptsVelocity_SomeD [OF assms] d l show ?thesis by blast
qed

lemma update_velocity_explicit:
  assumes "update_velocity s = Some s2"
  obtains un vel m where
    "s2 = s\<lparr>cur_un_pts := un, pts_velocity := vel, cur_un_pts_map := m\<rparr>"
    "length un = length (cur_pts s)" "dom m = set (ids s)" "length (ids s) \<le> length un"
    "vel = (if prev_un_pts_map s \<noteq> Map.empty then
          map (\<lambda>k. rule_velocity (prev_un_pts_map s) (cur_time s - prev_time s) (ids s ! k) (un ! k))
            [0..<length un]
        else replicate (length (cur_pts s)) (Point2f 0 0))"
proof -
  from assms obtain cam un vel m where
    u: "undistortedPts (cur_pts s) cam = Some un" and
    p: "ptsVelocity s (ids s) un (prev_un_pts_map s) = Some (vel, m)" and
    s2: "s2 = s\<lparr>cur_un_pts := un, pts_velocity := vel, cur_un_pts_map := m\<rparr>"
    by (auto simp: update_velocity_def bind_eq_Some_conv)
  from undistortedPts_length [OF u] have l: "length un = length (cur_pts s)" .
  from ptsVelocity_explicit [OF p] have
    d: "dom m = set (ids s)" and i: "length (ids s) \<le> length un" and
    v: "vel = (if prev_un_pts_map s \<noteq> Map.empty then
          map (\<lambda>k. rule_velocity (prev_un_pts_map s) (cur_time s - prev_time s) (ids s ! k) (un ! k))
            [0..<length un]
        else replicate (length (cur_pts s)) (Point2f 0 0))"
    by blast+
  from s2 l d i v show ?thesis by (rule that)
qed

lemma roll_forward_explicit:
  assumes "roll_forward s = Some s4"
  obtains lm where
    "s4 = s\<lparr>prev_img := cur_img s, prev_pts := cur_pts s, prev_un_pts := cur_un_pts s,
             prev_un_pts_map := cur_un_pts_map s, prev_time := cur_time s,
             hasPrediction := False, prevLeftPtsMap := lm\<rparr>"
  using assms by (auto simp: roll_forward_def bind_eq_Some_conv)

lemma trackImage_SomeD:
  assumes "trackImage e t img img1 s0 = Some (ff, s4)"
  obtains s1 s2 s3 where
    "update_tracks e (s0\<lparr>cur_time := t, cur_img := img, row := rows img, col := cols img, cur_pts := []\<rparr>) = Some s1"
    "update_velocity s1 = Some s2"
    "(if \<not> Mat_empty img1 \<and> stereo_cam s2 then stereo_stage e img1 s2 else Some s2) = Some s3"
    "roll_forward s3 = Some s4"
    "build_report (\<not> Mat_empty img1 \<and> stereo_cam s4) s4 = Some ff"
  using assms by (auto simp: trackImage_def bind_eq_Some_conv)

lemma stereo_stage_explicit:
  assumes "stereo_stage e img s = Some s3"
  obtains ir rp ur rv rm where
    "s3 = s\<lparr>ids_right := ir, cur_right_pts := rp, cur_un_right_pts := ur,
             right_pts_velocity := rv, cur_un_right_pts_map := rm, prev_un_right_pts_map := rm\<rparr>"
    "subseq ir (ids s)" "length ir \<le> length ur" "length ur = length rp" "dom rm = set ir"
    "rv = (if prev_un_right_pts_map s \<noteq> Map.empty then
          map (\<lambda>k. rule_velocity (prev_un_right_pts_map s) (cur_time s - prev_time s) (ir ! k) (ur ! k))
            [0..<length ur]
        else replicate (length (cur_pts s)) (Point2f 0 0))"
proof (cases "cur_pts s = []")
  case True
  with assms have
    "s3 = s\<lparr>ids_right := [], cur_right_pts := [], cur_un_right_pts := [],
             right_pts_velocity := [], cur_un_right_pts_map := Map.empty,
             prev_un_right_pts_map := Map.empty\<rparr>"
    by (auto simp: stereo_stage_def Let_def)
  then show ?thesis
    by (rule that) (simp_all add: True)
next
  case False
  let ?s = "s\<lparr>ids_right := [], cur_right_pts := [], cur_un_right_pts := [],
               right_pts_velocity := [], cur_un_right_pts_map := Map.empty\<rparr>"
  from assms False obtain right status right' ids_right' cam un vel m where
    r: "reduceVector right status = Some right'" and
    i: "reduceVector (ids s) status = Some ids_right'" and
    u: "undistortedPts right' cam = Some un" and
    p: "ptsVelocity ?s ids_right' un (prev_un_right_pts_map s) = Some (vel, m)" and
    s3: "s3 = s\<lparr>ids_right := ids_right', cur_right_pts := right', cur_un_right_pts := un,
             right_pts_velocity := vel, cur_un_right_pts_map := m, prev_un_right_pts_map := m\<rparr>"
    by (auto simp: stereo_stage_def Let_def bind_eq_Some_conv)
  from i have ir: "ids_right' = kept (ids s) status"
    by (simp add: reduceVector_eq split: if_splits)
  have sub: "subseq ids_right' (ids s)" unfolding ir by (rule subseq_kept)
  from undistortedPts_length [OF u] have l: "length un = length right'" .
  from ptsVelocity_explicit [OF p] have
    d: "dom m = set ids_right'" and il: "length ids_right' \<le> length un" and
    v: "vel = (if prev_un_right_pts_map s \<noteq> Map.empty then
          map (\<lambda>k. rule_velocity (prev_un_right_pts_map s) (cur_time s - prev_time s) (ids_right' ! k) (un ! k))
            [0..<length un]
        else replicate (length (cur_pts s)) (Point2f 0 0))"
    by simp_all
  from s3 sub il l d v show ?thesis by (rule that)
qed

lemma build_report_camera_ids:
  assumes "build_report stereo s = Some ff"
  shows "camera_ids 0 ff = set (ids s) \<and> camera_ids 1 ff = (if stereo then set (ids_right s) else {})"
proof -
  from assms obtain ff0 where
    a: "report_loop 0 (ids s) (cur_un_pts s) (cur_pts s) (pts_velocity s) Map.empty 0 = Some ff0" and
    b: "(if stereo then
           report_loop 1 (ids_right s) (cur_un_right_pts s) (cur_right_pts s) (right_pts_velocity s) ff0 0
         else Some ff0) = Some ff"
    by (auto simp: build_report_def bind_eq_Some_conv)
  from report_loop_camera_ids [OF a, of 0] report_loop_camera_ids [OF a, of 1]
  have z: "camera_ids 0 ff0 = set (ids s)" "camera_ids 1 ff0 = {}" by simp_all
  show ?thesis
  proof (cases stereo)
    case False
    with b z show ?thesis by simp
  next
    case True
    with b have
      c: "report_loop 1 (ids_right s) (cur_un_right_pts s) (cur_right_pts s) (right_pts_velocity s) ff0 0 = Some ff"
      by simp
    from report_loop_camera_ids [OF c, of 0] report_loop_camera_ids [OF c, of 1] z True
    show ?thesis by simp
  qed
qed

lemma ex_trackImage_stereo:
  "map_option fst (trackImage ex_stereo_env 1 ex_img ex_img ex_stereo) =
     Some [8 \<mapsto> [(0, [1 / 5, 1 / 2, 1, 2, 5, 0, 0])],
           7 \<mapsto> [(0, [1 / 2, 1 / 2, 1, 5, 5, 0, 0]), (1, [1 / 2, 1 / 2, 1, 5, 5, 0, 0])]] \<and>
   map_option ids (map_option snd (trackImage ex_stereo_env 1 ex_img ex_img ex_stereo)) = Some [7, 8] \<and>
   map_option ids_right (map_option snd (trackImage ex_stereo_env 1 ex_img ex_img ex_stereo)) = Some [7] \<and>
   map_option right_pts_velocity (map_option snd (trackImage ex_stereo_env 1 ex_img ex_img ex_stereo)) =
     Some [Point2f 0 0, Point2f 0 0]"
  by (simp add: frame_defs ex_defs loop_simps ex_stereo_env_def ex_stereo_def ex_step_def distance_self
      ex_distance)

lemma build_report_total:
  assumes "length (ids s) \<le> length (cur_un_pts s)" "length (ids s) \<le> length (cur_pts s)"
    "length (ids s) \<le> length (pts_velocity s)"
    "length (ids_right s) \<le> length (cur_un_right_pts s)" "length (ids_right s) \<le> length (cur_right_pts s)"
    "length (ids_right s) \<le> length (right_pts_velocity s)"
  shows "\<exists>ff. build_report stereo s = Some ff"
proof -
  from report_loop_total [OF assms(1-3)] obtain ff0 where
    a: "report_loop 0 (ids s) (cur_un_pts s) (cur_pts s) (pts_velocity s) Map.empty 0 = Some ff0"
    by blast
  from report_loop_total [OF assms(4-6)] obtain ff1 where
    "report_loop 1 (ids_right s) (cur_un_right_pts s) (cur_right_pts s) (right_pts_velocity s) ff0 0 = Some ff1"
    by blast
  with a show ?thesis by (simp add: build_report_def)
qed

subsection \<open>The id counter\<close>

lemma setPrediction_loop_explicit:
  "setPrediction_loop predictPts s i = Some s' \<Longrightarrow>
   \<exists>pp pd. s' = s\<lparr>predict_pts := pp, predict_pts_debug := pd\<rparr>"
proof (induction predictPts s i arbitrary: s' rule: setPrediction_loop.induct)
  case (1 predictPts s i)
  note unf = setPrediction_loop.simps [of predictPts s i]
  show ?case
  proof (cases "i < length (ids s)")
    case False
    with "1.prems" have "s' = s\<lparr>predict_pts := predict_pts s, predict_pts_debug := predict_pts_debug s\<rparr>"
      by (simp add: unf)
    then show ?thesis by blast
  next
    case True
    show ?thesis
    proof (cases "predictPts (ids s ! i)")
      case None
      with "1.prems" True have l: "i < length (prev_pts s)"
        by (auto simp: unf split: if_splits)
      with "1.prems" True None have
        "setPrediction_loop predictPts (s\<lparr>predict_pts := predict_pts s @ [prev_pts s ! i]\<rparr>) (i + 1) = Some s'"
        by (simp add: unf)
      from "1.IH"(1) [OF True None l this] show ?thesis by auto
    next
      case (Some v)
      with "1.prems" True obtain cam where c: "nth_opt (m_camera s) 0 = Some cam"
        by (auto simp: unf split: option.splits)
      with "1.prems" True Some have
        "setPrediction_loop predictPts
           (s\<lparr>predict_pts := predict_pts s @ [spaceToPlane cam v],
              predict_pts_debug := predict_pts_debug s @ [spaceToPlane cam v]\<rparr>) (i + 1) = Some s'"
        by (simp add: unf)
      from "1.IH"(2) [OF True Some c this] show ?thesis by auto
    qed
  qed
qed

lemma setPrediction_explicit:
  assumes "setPrediction predictPts s = Some s'"
  obtains pp pd where "s' = s\<lparr>hasPrediction := True, predict_pts := pp, predict_pts_debug := pd\<rparr>"
proof -
  from assms setPrediction_loop_explicit
    [of predictPts "s\<lparr>hasPrediction := True, predict_pts := [], predict_pts_debug := []\<rparr>" 0 s']
  obtain pp pd where "s' = s\<lparr>hasPrediction := True, predict_pts := pp, predict_pts_debug := pd\<rparr>"
    by (auto simp: setPrediction_def)
  then show ?thesis by (rule that)
qed

lemma removeOutliers_explicit:
  assumes "removeOutliers R s = Some s'"
  obtains a c d where "s' = s\<lparr>prev_pts := a, ids := c, track_cnt := d\<rparr>" "subseq c (ids s)"
proof -
  from assms have
    "s' = s\<lparr>prev_pts := kept (prev_pts s) (outlier_status (ids s) R),
            ids := kept (ids s) (outlier_status (ids s) R),
            track_cnt := kept (track_cnt s) (outlier_status (ids s) R)\<rparr>"
    by (auto simp: removeOutliers_def Let_def bind_eq_Some_conv reduceVector_eq split: if_splits)
  then show ?thesis by (rule that) (rule subseq_kept)
qed

lemma trackImage_explicit:
  assumes "trackImage e t img img1 s = Some (ff, s')"
  obtains old k where
    "ids s' = old @ map (\<lambda>j. n_id s + int j) [0..<k]" "n_id s' = n_id s + int k"
    "(\<forall>xs. mset (std_sort e xs) = mset xs) \<longrightarrow> set old \<subseteq> set (ids s) \<and> (distinct (ids s) \<longrightarrow> distinct old)"
    "dom (prev_un_pts_map s') = set (ids s')"
    "dom (prev_un_right_pts_map s') \<subseteq> set (ids s') \<union> dom (prev_un_right_pts_map s)"
proof -
  let ?s0 = "s\<lparr>cur_time := t, cur_img := img, row := rows img, col := cols img, cur_pts := []\<rparr>"
  from assms obtain s1 s2 s3 where
    ut: "update_tracks e ?s0 = Some s1" and
    uv: "update_velocity s1 = Some s2" and
    st: "(if \<not> Mat_empty img1 \<and> stereo_cam s2 then stereo_stage e img1 s2 else Some s2) = Some s3" and
    rf: "roll_forward s3 = Some s'"
    by (rule trackImage_SomeD)
  from ut obtain a m np acc where
    s1: "s1 = ?s0\<lparr>mask_m := m, n_pts := np, prev_pts := a,
            cur_pts := map (\<lambda>t. fst (snd t)) acc @ np,
            ids := map (\<lambda>t. snd (snd t)) acc @ map (\<lambda>k. n_id ?s0 + int k) [0..<length np],
            track_cnt := map fst acc @ replicate (length np) 1,
            n_id := n_id ?s0 + int (length np)\<rparr>" and
    od: "(\<forall>xs. mset (std_sort e xs) = mset xs) \<longrightarrow>
       set (map (\<lambda>t. snd (snd t)) acc) \<subseteq> set (ids ?s0) \<and>
       (distinct (ids ?s0) \<longrightarrow> distinct (map (\<lambda>t. snd (snd t)) acc))"
    by (rule update_tracks_explicit)
  from uv obtain un vel mp where
    s2: "s2 = s1\<lparr>cur_un_pts := un, pts_velocity := vel, cur_un_pts_map := mp\<rparr>" and
    dm: "dom mp = set (ids s1)"
    by (rule update_velocity_explicit)
  from rf obtain lm where
    s4: "s' = s3\<lparr>prev_img := cur_img s3, prev_pts := cur_pts s3, prev_un_pts := cur_un_pts s3,
             prev_un_pts_map := cur_un_pts_map s3, prev_time := cur_time s3,
             hasPrediction := False, prevLeftPtsMap := lm\<rparr>"
    by (rule roll_forward_explicit)
  have s3: "ids s3 = ids s2 \<and> n_id s3 = n_id s2 \<and> cur_un_pts_map s3 = cur_un_pts_map s2 \<and>
    dom (prev_un_right_pts_map s3) \<subseteq> set (ids s2) \<union> dom (prev_un_right_pts_map s2)"
  proof (cases "\<not> Mat_empty img1 \<and> stereo_cam s2")
    case False
    with st have "s3 = s2" by auto
    then show ?thesis by auto
  next
    case True
    with st have "stereo_stage e img1 s2 = Some s3" by simp
    then obtain ir rp ur rv rm where
      e3: "s3 = s2\<lparr>ids_right := ir, cur_right_pts := rp, cur_un_right_pts := ur,
             right_pts_velocity := rv, cur_un_right_pts_map := rm, prev_un_right_pts_map := rm\<rparr>" and
      sub: "subseq ir (ids s2)" and dr: "dom rm = set ir"
      by (rule stereo_stage_explicit)
    from subseq_set_mono [OF sub] dr show ?thesis by (auto simp: e3)
  qed
  have i': "ids s' = map (\<lambda>t. snd (snd t)) acc @ map (\<lambda>j. n_id s + int j) [0..<length np]"
    using s3 by (simp add: s4 s2 s1)
  have n': "n_id s' = n_id s + int (length np)"
    using s3 by (simp add: s4 s2 s1)
  have o': "(\<forall>xs. mset (std_sort e xs) = mset xs) \<longrightarrow>
    set (map (\<lambda>t. snd (snd t)) acc) \<subseteq> set (ids s) \<and> (distinct (ids s) \<longrightarrow> distinct (map (\<lambda>t. snd (snd t)) acc))"
    using od by simp
  have d': "dom (prev_un_pts_map s') = set (ids s')"
    using s3 dm by (simp add: s4 s2)
  have r': "dom (prev_un_right_pts_map s') \<subseteq> set (ids s') \<union> dom (prev_un_right_pts_map s)"
    using s3 by (simp add: s4 s2 s1)
  from i' n' o' d' r' show ?thesis by (rule that)
qed

lemma distinct_fresh_ids: "distinct (map (\<lambda>j. n + int j) [0..<k])"
  by (simp add: distinct_map inj_on_def)

lemma ids_below_counter_trackImage:
  assumes "\<forall>xs. mset (std_sort e xs) = mset xs" and "ids_below_counter s"
    and "trackImage e t img img1 s = Some (ff, s')"
  shows "ids_below_counter s'"
proof -
  from assms(3) obtain old k where
    i: "ids s' = old @ map (\<lambda>j. n_id s + int j) [0..<k]" and n: "n_id s' = n_id s + int k" and
    o: "(\<forall>xs. mset (std_sort e xs) = mset xs) \<longrightarrow> set old \<subseteq> set (ids s) \<and> (distinct (ids s) \<longrightarrow> distinct old)" and
    d: "dom (prev_un_pts_map s') = set (ids s')" and
    r: "dom (prev_un_right_pts_map s') \<subseteq> set (ids s') \<union> dom (prev_un_right_pts_map s)"
    by (rule trackImage_explicit)
  from assms(2) have
    ds: "distinct (ids s)" and n0: "0 \<le> n_id s" and
    b: "\<And>x. x \<in> set (ids s) \<Longrightarrow> 0 \<le> x \<and> x < n_id s" and
    br: "\<And>x. x \<in> dom (prev_un_right_pts_map s) \<Longrightarrow> x < n_id s"
    by (auto simp: ids_below_counter_def)
  from o assms(1) ds have os: "set old \<subseteq> set (ids s)" and od: "distinct old" by blast+
  have bo: "\<And>x. x \<in> set old \<Longrightarrow> 0 \<le> x \<and> x < n_id s" using os b by blast
  have "distinct (ids s')"
    unfolding i using od bo by (fastforce simp: distinct_fresh_ids)
  moreover have bs: "\<forall>x\<in>set (ids s'). 0 \<le> x \<and> x < n_id s'"
    unfolding i n using bo n0 by fastforce
  moreover have "0 \<le> n_id s'" using n n0 by simp
  moreover have "\<forall>x\<in>dom (prev_un_pts_map s'). x < n_id s'" using d bs by auto
  moreover have "\<forall>x\<in>dom (prev_un_right_pts_map s'). x < n_id s'"
  proof
    fix x assume "x \<in> dom (prev_un_right_pts_map s')"
    with r have "x \<in> set (ids s') \<or> x \<in> dom (prev_un_right_pts_map s)" by blast
    then show "x < n_id s'" using bs br n by force
  qed
  ultimately show ?thesis by (simp add: ids_below_counter_def)
qed

lemma reachable_ids_below_counter:
  assumes "\<forall>xs. mset (std_sort e xs) = mset xs" and "reachable e s"
  shows "ids_below_counter s"
  using assms(2)
proof (induction rule: reachable.induct)
  case (construct r c t t')
  show ?case by (simp add: ids_below_counter_def FeatureTracker_def)
next
  case (calibrate s cams)
  then show ?case by (simp add: ids_below_counter_def readIntrinsicParameter_def Let_def)
next
  case (track s t img img1 ff s')
  from assms(1) track.IH track.hyps(2) show ?case by (rule ids_below_counter_trackImage)
next
  case (predict s predictPts s')
  from predict.hyps(2) obtain pp pd where
    "s' = s\<lparr>hasPrediction := True, predict_pts := pp, predict_pts_debug := pd\<rparr>"
    by (rule setPrediction_explicit)
  with predict.IH show ?case by (simp add: ids_below_counter_def)
next
  case (feedback s removePtsIds s')
  from feedback.hyps(2) obtain a c d where
    s': "s' = s\<lparr>prev_pts := a, ids := c, track_cnt := d\<rparr>" and sub: "subseq c (ids s)"
    by (rule removeOutliers_explicit)
  from feedback.IH subseq_set_mono [OF sub] subseq_distinct_mono [OF sub] show ?case
    by (auto simp: ids_below_counter_def s')
qed

lemma ex_first_eval:
  "map_option ids (map_option snd
       (trackImage ex_detect_env 1 ex_img ex_no_img
          (readIntrinsicParameter [ex_camera] (FeatureTracker 0 0 0 0)))) = Some [0, 1] \<and>
   map_option n_id (map_option snd
       (trackImage ex_detect_env 1 ex_img ex_no_img
          (readIntrinsicParameter [ex_camera] (FeatureTracker 0 0 0 0)))) = Some 2"
  by (simp add: frame_defs ex_defs loop_simps ex_detect_env_def readIntrinsicParameter_def Let_def)

lemma ex_second_eval:
  "map_option ids (map_option snd (trackImage ex_detect_env 2 ex_img ex_no_img ex_first)) = Some [0, 1, 2, 3]"
  by (simp add: ex_first_def frame_defs ex_defs loop_simps ex_detect_env_def readIntrinsicParameter_def Let_def)

subsection \<open>Velocity at birth\<close>

lemma rule_velocity_absent: "prev_id_pts i = None \<Longrightarrow> rule_velocity prev_id_pts dt i p = Point2f 0 0"
  by (simp add: rule_velocity_def)

lemma xyz_uv_velocity_nth:
  "xyz_uv_velocity un pts vel k ! 5 = px (vel ! k)" "xyz_uv_velocity un pts vel k ! 6 = py (vel ! k)"
  by (simp_all add: xyz_uv_velocity_def)

lemma birth_velocity_zero:
  assumes pl: "\<forall>i\<in>dom (prev_un_pts_map s). i < n_id s"
    and pr: "\<forall>i\<in>dom (prev_un_right_pts_map s). i < n_id s"
    and tr: "trackImage e t img img1 s = Some (ff, s')"
    and j: "n_id s \<le> j" "j < n_id s'"
  shows "j \<in> set (ids s') \<and>
     (\<exists>obs. ff j = Some obs \<and> (\<exists>v. (0, v) \<in> set obs) \<and> (\<forall>ob\<in>set obs. snd ob ! 5 = 0 \<and> snd ob ! 6 = 0))"
proof -
  let ?s0 = "s\<lparr>cur_time := t, cur_img := img, row := rows img, col := cols img, cur_pts := []\<rparr>"
  from tr obtain s1 s2 s3 where
    ut: "update_tracks e ?s0 = Some s1" and
    uv: "update_velocity s1 = Some s2" and
    st: "(if \<not> Mat_empty img1 \<and> stereo_cam s2 then stereo_stage e img1 s2 else Some s2) = Some s3" and
    rf: "roll_forward s3 = Some s'" and
    br: "build_report (\<not> Mat_empty img1 \<and> stereo_cam s') s' = Some ff"
    by (rule trackImage_SomeD)
  from ut obtain a m np acc where
    s1: "s1 = ?s0\<lparr>mask_m := m, n_pts := np, prev_pts := a,
            cur_pts := map (\<lambda>t. fst (snd t)) acc @ np,
            ids := map (\<lambda>t. snd (snd t)) acc @ map (\<lambda>k. n_id ?s0 + int k) [0..<length np],
            track_cnt := map fst acc @ replicate (length np) 1,
            n_id := n_id ?s0 + int (length np)\<rparr>"
    by (rule update_tracks_explicit)
  from uv obtain un vel mp where
    s2: "s2 = s1\<lparr>cur_un_pts := un, pts_velocity := vel, cur_un_pts_map := mp\<rparr>" and
    lu: "length un = length (cur_pts s1)" and
    v: "vel = (if prev_un_pts_map s1 \<noteq> Map.empty then
          map (\<lambda>k. rule_velocity (prev_un_pts_map s1) (cur_time s1 - prev_time s1) (ids s1 ! k) (un ! k))
            [0..<length un]
        else replicate (length (cur_pts s1)) (Point2f 0 0))"
    by (rule update_velocity_explicit)
  from rf obtain lm where
    s4: "s' = s3\<lparr>prev_img := cur_img s3, prev_pts := cur_pts s3, prev_un_pts := cur_un_pts s3,
             prev_un_pts_map := cur_un_pts_map s3, prev_time := cur_time s3,
             hasPrediction := False, prevLeftPtsMap := lm\<rparr>"
    by (rule roll_forward_explicit)
  have l1: "length (ids s1) = length (cur_pts s1)" by (simp add: s1)
  have p1: "prev_un_pts_map s1 = prev_un_pts_map s" "prev_un_right_pts_map s2 = prev_un_right_pts_map s"
    by (simp_all add: s2 s1)
  from pl j(1) have nl: "prev_un_pts_map s j = None" by (auto simp: dom_def)
  from pr j(1) have nr: "prev_un_right_pts_map s j = None" by (auto simp: dom_def)
  text \<open>The left velocity of an entry with id \<open>j\<close> is zero.\<close>
  have vz: "vel ! k = Point2f 0 0" if "k < length (ids s1)" "ids s1 ! k = j" for k
  proof (cases "prev_un_pts_map s1 = Map.empty")
    case True
    with that l1 show ?thesis by (simp add: v)
  next
    case False
    with that l1 lu nl show ?thesis by (simp add: v p1 rule_velocity_absent)
  qed
  text \<open>The stereo stage, when it runs.\<close>
  have s3: "ids s3 = ids s1 \<and> n_id s3 = n_id s1 \<and> stereo_cam s3 = stereo_cam s2 \<and>
    cur_un_pts s3 = un \<and> cur_pts s3 = cur_pts s1 \<and> pts_velocity s3 = vel \<and>
    (\<not> Mat_empty img1 \<and> stereo_cam s2 \<longrightarrow>
       (\<forall>k<length (ids_right s3). ids_right s3 ! k = j \<longrightarrow> right_pts_velocity s3 ! k = Point2f 0 0))"
  proof (cases "\<not> Mat_empty img1 \<and> stereo_cam s2")
    case False
    with st have "s3 = s2" by auto
    with False show ?thesis by (auto simp: s2)
  next
    case True
    with st have "stereo_stage e img1 s2 = Some s3" by simp
    then obtain ir rp ur rv rm where
      e3: "s3 = s2\<lparr>ids_right := ir, cur_right_pts := rp, cur_un_right_pts := ur,
             right_pts_velocity := rv, cur_un_right_pts_map := rm, prev_un_right_pts_map := rm\<rparr>" and
      sub: "subseq ir (ids s2)" and iu: "length ir \<le> length ur" and
      rv: "rv = (if prev_un_right_pts_map s2 \<noteq> Map.empty then
          map (\<lambda>k. rule_velocity (prev_un_right_pts_map s2) (cur_time s2 - prev_time s2) (ir ! k) (ur ! k))
            [0..<length ur]
        else replicate (length (cur_pts s2)) (Point2f 0 0))"
      by (rule stereo_stage_explicit)
    from sub have li: "length ir \<le> length (ids s2)" by (rule list_emb_length)
    have "rv ! k = Point2f 0 0" if "k < length ir" "ir ! k = j" for k
    proof (cases "prev_un_right_pts_map s2 = Map.empty")
      case True
      with that li l1 show ?thesis by (simp add: rv s2)
    next
      case False
      with that iu nr show ?thesis by (simp add: rv p1 rule_velocity_absent)
    qed
    then show ?thesis by (simp add: e3 s2)
  qed
  have f4: "ids s' = ids s1" "n_id s' = n_id s1" "cur_un_pts s' = un" "cur_pts s' = cur_pts s1"
    "pts_velocity s' = vel" "ids_right s' = ids_right s3" "right_pts_velocity s' = right_pts_velocity s3"
    "cur_un_right_pts s' = cur_un_right_pts s3" "cur_right_pts s' = cur_right_pts s3"
    "stereo_cam s' = stereo_cam s2"
    using s3 by (simp_all add: s4)
  text \<open>The id \<open>j\<close> is one of the new ids.\<close>
  have "n_id s' = n_id s + int (length np)" by (simp add: f4 s1)
  with j have "nat (j - n_id s) < length np" "j = n_id s + int (nat (j - n_id s))" by simp_all
  then have "j \<in> (\<lambda>k. n_id s + int k) ` {0..<length np}" by (intro image_eqI) simp_all
  then have js: "j \<in> set (ids s')" by (simp add: f4 s1)
  text \<open>The observations of \<open>j\<close> in the report.\<close>
  from build_report_camera_ids [OF br] js have "j \<in> camera_ids 0 ff" by simp
  then obtain obs v where
    o: "ff j = Some obs" and c0: "(0, v) \<in> set obs"
    unfolding camera_ids_def by blast
  from br obtain ff0 where
    r0: "report_loop 0 (ids s') (cur_un_pts s') (cur_pts s') (pts_velocity s') Map.empty 0 = Some ff0" and
    r1: "(if \<not> Mat_empty img1 \<and> stereo_cam s' then
           report_loop 1 (ids_right s') (cur_un_right_pts s') (cur_right_pts s') (right_pts_velocity s') ff0 0
         else Some ff0) = Some ff"
    by (auto simp: build_report_def bind_eq_Some_conv)
  have z0: "snd ob ! 5 = 0 \<and> snd ob ! 6 = 0" if "ff0 j = Some obs0" "ob \<in> set obs0" for obs0 ob
  proof -
    from report_loop_obs [OF r0 that] obtain k where
      "k < length (ids s')" "ids s' ! k = j"
      "ob = (0, xyz_uv_velocity (cur_un_pts s') (cur_pts s') (pts_velocity s') k)"
      by auto
    with vz [of k] show ?thesis by (simp add: f4 xyz_uv_velocity_nth)
  qed
  have "snd ob ! 5 = 0 \<and> snd ob ! 6 = 0" if ob: "ob \<in> set obs" for ob
  proof (cases "\<not> Mat_empty img1 \<and> stereo_cam s'")
    case False
    with r1 have "ff = ff0" by simp
    with o ob z0 show ?thesis by blast
  next
    case True
    with r1 have
      "report_loop 1 (ids_right s') (cur_un_right_pts s') (cur_right_pts s') (right_pts_velocity s') ff0 0 = Some ff"
      by simp
    from report_loop_obs [OF this o ob] show ?thesis
    proof
      assume "\<exists>obs0. ff0 j = Some obs0 \<and> ob \<in> set obs0"
      with z0 show ?thesis by blast
    next
      assume "\<exists>k\<ge>0. k < length (ids_right s') \<and> ids_right s' ! k = j \<and>
        ob = (1, xyz_uv_velocity (cur_un_right_pts s') (cur_right_pts s') (right_pts_velocity s') k)"
      then obtain k where k: "k < length (ids_right s')" "ids_right s' ! k = j"
        "ob = (1, xyz_uv_velocity (cur_un_right_pts s') (cur_right_pts s') (right_pts_velocity s') k)"
        by blast
      from True s3 k(1,2) have "right_pts_velocity s' ! k = Point2f 0 0"
        by (simp add: f4)
      with k(3) show ?thesis by (simp add: xyz_uv_velocity_nth)
    qed
  qed
  with js o c0 show ?thesis by blast
qed

lemma ptsVelocity_total:
  assumes "length idv = length pts" and "prev_id_pts \<noteq> Map.empty \<Longrightarrow> cur_time s \<noteq> prev_time s"
  shows "\<exists>velocity cur_id_pts.
     ptsVelocity s idv pts prev_id_pts = Some (velocity, cur_id_pts) \<and>
     (prev_id_pts \<noteq> Map.empty \<longrightarrow>
        length velocity = length idv \<and>
        (\<forall>i<length idv. velocity ! i =
           (case prev_id_pts (idv ! i) of
              Some q \<Rightarrow>
                Point2f ((px (pts ! i) - px q) / (cur_time s - prev_time s))
                        ((py (pts ! i) - py q) / (cur_time s - prev_time s))
            | None \<Rightarrow> Point2f 0 0))) \<and>
     (prev_id_pts = Map.empty \<longrightarrow>
        length velocity = length (cur_pts s) \<and> (\<forall>v\<in>set velocity. v = Point2f 0 0))"
proof -
  from assms(1) obtain m where m: "insert_loop idv pts Map.empty 0 = Some m"
    using insert_loop_total [of idv pts Map.empty 0] by auto
  show ?thesis
  proof (cases "prev_id_pts = Map.empty")
    case True
    with m have "ptsVelocity s idv pts prev_id_pts = Some (replicate (length (cur_pts s)) (Point2f 0 0), m)"
      by (simp add: ptsVelocity_def zero_loop_replicate)
    with True show ?thesis by simp
  next
    case False
    with assms(2) have dt: "cur_time s - prev_time s \<noteq> 0" by simp
    from velocity_loop_total [OF _ dt, of pts idv prev_id_pts "[]" 0] assms(1)
    obtain r where r: "velocity_loop idv pts prev_id_pts (cur_time s - prev_time s) [] 0 = Some r"
      by auto
    with m False have p: "ptsVelocity s idv pts prev_id_pts = Some (r, m)"
      by (simp add: ptsVelocity_def Let_def)
    from ptsVelocity_SomeD [OF p] False have
      "r = map (\<lambda>k. rule_velocity prev_id_pts (cur_time s - prev_time s) (idv ! k) (pts ! k)) [0..<length pts]"
      by simp
    then have "length r = length idv \<and>
        (\<forall>i<length idv. r ! i =
           (case prev_id_pts (idv ! i) of
              Some q \<Rightarrow>
                Point2f ((px (pts ! i) - px q) / (cur_time s - prev_time s))
                        ((py (pts ! i) - py q) / (cur_time s - prev_time s))
            | None \<Rightarrow> Point2f 0 0))"
      using assms(1) by (auto simp: rule_velocity_def split: option.splits)
    with p False show ?thesis by simp
  qed
qed

lemma ex_second_report:
  "map_option fst (trackImage ex_detect_env 2 ex_img ex_no_img ex_first) =
     Some [0 \<mapsto> [(0, [2 / 5, 3 / 10, 1, 4, 3, 1 / 10, 0])],
           1 \<mapsto> [(0, [4 / 5, 7 / 10, 1, 8, 7, 1 / 10, 0])],
           2 \<mapsto> [(0, [3 / 10, 3 / 10, 1, 3, 3, 0, 0])],
           3 \<mapsto> [(0, [7 / 10, 7 / 10, 1, 7, 7, 0, 0])]] \<and>
   map_option n_id (map_option snd (trackImage ex_detect_env 2 ex_img ex_no_img ex_first)) = Some 4"
  by (simp add: ex_first_def frame_defs ex_defs loop_simps ex_detect_env_def readIntrinsicParameter_def Let_def)

lemma ex_first_reachable:
  "reachable ex_detect_env ex_first \<and> ids ex_first = [0, 1] \<and> n_id ex_first = 2"
proof -
  let ?s0 = "readIntrinsicParameter [ex_camera] (FeatureTracker 0 0 0 0)"
  from ex_first_eval obtain ff s' where
    t: "trackImage ex_detect_env 1 ex_img ex_no_img ?s0 = Some (ff, s')" and
    i: "ids s' = [0, 1]" and n: "n_id s' = 2"
    by auto
  from t have f: "ex_first = s'" by (simp add: ex_first_def)
  have "reachable ex_detect_env ?s0"
    by (intro reachable.calibrate reachable.construct)
  from this t have "reachable ex_detect_env ex_first"
    unfolding f by (rule reachable.track)
  with i n f show ?thesis by simp
qed

lemma ex_detect_env_sort: "\<forall>xs. mset (std_sort ex_detect_env xs) = mset xs"
  by (simp add: ex_detect_env_def ex_env_def)

section \<open>The claims\<close>

text \<open>
  C1 (as amended). After the propagation stage of \<^verbatim>\<open>trackImage\<close>, the survivors are
  exactly the tracks whose flow status is set and whose position passes \<^verbatim>\<open>inBorder\<close>, in
  their order and in all four vectors; every survivor's position, rounded to the nearest
  integers, satisfies \<open>1 \<le> x < width - 1\<close> and \<open>1 \<le> y < height - 1\<close>, so the position itself
  satisfies \<open>1/2 \<le> x \<le> width - 3/2\<close> and \<open>1/2 \<le> y \<le> height - 3/2\<close>.
\<close>

theorem propagate_border_rounded:
  assumes "propagate e s = Some s'"
  shows "\<exists>cur status status'.
     optical_flow e s = Some (cur, status) \<and> length status' = length status \<and>
     length cur \<le> length status \<and>
     (\<forall>i<length cur. (status' ! i \<noteq> 0) = (status ! i \<noteq> 0 \<and> inBorder s (cur ! i))) \<and>
     cur_pts s' = kept cur status' \<and> prev_pts s' = kept (prev_pts s) status' \<and>
     ids s' = kept (ids s) status' \<and> track_cnt s' = kept (track_cnt s) status' \<and>
     (\<forall>p\<in>set (cur_pts s').
        1 \<le> cvRound (px p) \<and> cvRound (px p) < col s' - 1 \<and>
        1 \<le> cvRound (py p) \<and> cvRound (py p) < row s' - 1 \<and>
        1 / 2 \<le> px p \<and> px p \<le> of_int (col s') - 3 / 2 \<and>
        1 / 2 \<le> py p \<and> py p \<le> of_int (row s') - 3 / 2)"
proof -
  from assms obtain cur status status' where
    o: "optical_flow e s = Some (cur, status)" and
    b: "border_loop s cur status 0 = Some status'" and
    l: "length cur \<le> length status'" and
    s': "s' = s\<lparr>prev_pts := kept (prev_pts s) status', cur_pts := kept cur status',
             ids := kept (ids s) status', track_cnt := kept (track_cnt s) status'\<rparr>"
    by (rule propagate_SomeD)
  from border_loop_Some [OF b] have
    ls: "length status' = length status" and
    st: "\<And>k. k < length status \<Longrightarrow> status' ! k =
      (if k < length cur \<and> status ! k \<noteq> 0 \<and> \<not> inBorder s (cur ! k) then 0 else status ! k)"
    by auto
  have flags: "\<forall>i<length cur. (status' ! i \<noteq> 0) = (status ! i \<noteq> 0 \<and> inBorder s (cur ! i))"
    using st l ls by auto
  have inb: "inBorder s p" if "p \<in> set (kept cur status')" for p
    using that flags by (auto simp: set_kept)
  have bounds: "1 \<le> cvRound (px p) \<and> cvRound (px p) < col s - 1 \<and>
        1 \<le> cvRound (py p) \<and> cvRound (py p) < row s - 1 \<and>
        1 / 2 \<le> px p \<and> px p \<le> of_int (col s) - 3 / 2 \<and>
        1 / 2 \<le> py p \<and> py p \<le> of_int (row s) - 3 / 2" if "p \<in> set (kept cur status')" for p
  proof -
    from inb [OF that] have i: "1 \<le> cvRound (px p)" "cvRound (px p) < col s - 1"
      "1 \<le> cvRound (py p)" "cvRound (py p) < row s - 1"
      by (simp_all add: inBorder_iff)
    from i have r: "(1::real) \<le> of_int (cvRound (px p))" "real_of_int (cvRound (px p)) \<le> of_int (col s) - 2"
      "(1::real) \<le> of_int (cvRound (py p))" "real_of_int (cvRound (py p)) \<le> of_int (row s) - 2"
      by linarith+
    from cvRound_near [of "px p"] cvRound_near [of "py p"] i r show ?thesis by linarith
  qed
  show ?thesis
    using o ls l flags bounds by (intro exI [of _ cur] exI [of _ status] exI [of _ status']) (simp add: s')
qed

theorem propagate_border_rounded_witness:
  "propagate (ex_env (ex_lk (shift (- (17 / 4))) id)) ex_state =
     Some (ex_state\<lparr>prev_pts := [Point2f 5 5], cur_pts := [Point2f (3 / 4) 5], ids := [7],
                      track_cnt := [1]\<rparr>) \<and>
   1 \<le> cvRound (3 / 4) \<and> cvRound (3 / 4) < col ex_state - 1 \<and> (1 / 2 :: real) \<le> 3 / 4"
proof -
  let ?s' = "ex_state\<lparr>prev_pts := [Point2f 5 5], cur_pts := [Point2f (3 / 4) 5], ids := [7],
                      track_cnt := [1]\<rparr>"
  from propagate_border_rounded [OF ex_propagate]
  have "\<forall>p\<in>set (cur_pts ?s').
          1 \<le> cvRound (px p) \<and> cvRound (px p) < col ?s' - 1 \<and> 1 / 2 \<le> px p"
    by blast
  then have "1 \<le> cvRound (3 / 4) \<and> cvRound (3 / 4) < col ex_state - 1 \<and> (1 / 2 :: real) \<le> 3 / 4"
    by simp
  with ex_propagate show ?thesis by simp
qed

text \<open>
  C1 as stated fails: a point propagated to \<open>x = 3/4\<close> rounds to pixel 1 and survives
  the border filter, and \<open>1 \<le> x\<close> is false for it.
\<close>

theorem propagate_border_counterexample:
  "map_option cur_pts (propagate (ex_env (ex_lk (shift (- (17 / 4))) id)) ex_state) = Some [Point2f (3 / 4) 5] \<and>
   \<not> 1 \<le> px (Point2f (3 / 4) 5)"
  by (simp add: ex_propagate)




text \<open>
  C3 (as amended). With \<^verbatim>\<open>FLOW_BACK\<close> set, on the CPU and on the CUDA path, a track survives
  the propagation stage if and only if the forward pass reported success, the backward pass
  reported success, the distance that \<^verbatim>\<open>distance\<close> computes between the previous point and
  the backward-mapped point is at most 0.5, and the forward position passes \<^verbatim>\<open>inBorder\<close>; the
  survivors keep their order in all four vectors. \<^verbatim>\<open>distance\<close> subtracts the coordinates in
  \<^verbatim>\<open>float\<close> and squares, adds and takes the root in \<^verbatim>\<open>double\<close>, so its comparison with 0.5
  agrees with that of the exact distance whenever the exact distance is not within
  \<open>1/2^20\<close> of 0.5: a backward-mapped point at an exact distance of \<open>1/2 + 1/2^20\<close> or more,
  in particular of 1.0, is rejected.
\<close>

theorem reverse_check_gate:
  assumes "FLOW_BACK e \<noteq> 0" and "propagate e s = Some s'"
  shows "\<exists>cur fwd_status reverse_pts reverse_status keep.
     flow_forward (flow_backend e) s = (cur, fwd_status) \<and>
     flow_backend e (cur_img s) (prev_img s) cur (Some (prev_pts s)) 1 = (reverse_pts, reverse_status) \<and>
     length keep = length fwd_status \<and> length cur \<le> length fwd_status \<and>
     (\<forall>i<length fwd_status.
        (keep ! i \<noteq> 0) =
          (fwd_status ! i \<noteq> 0 \<and> reverse_status ! i \<noteq> 0 \<and>
           distance (prev_pts s ! i) (reverse_pts ! i) \<le> 1 / 2 \<and>
           (i < length cur \<longrightarrow> inBorder s (cur ! i)))) \<and>
     cur_pts s' = kept cur keep \<and> prev_pts s' = kept (prev_pts s) keep \<and>
     ids s' = kept (ids s) keep \<and> track_cnt s' = kept (track_cnt s) keep \<and>
     (\<forall>i<length fwd_status.
        1 / 2 + 1 / 2 ^ 20 \<le> exact_distance (prev_pts s ! i) (reverse_pts ! i) \<longrightarrow> keep ! i = 0) \<and>
     (\<forall>p q. (exact_distance p q \<le> 1 / 2 - 1 / 2 ^ 20 \<longrightarrow> distance p q \<le> 1 / 2) \<and>
            (1 / 2 + 1 / 2 ^ 20 \<le> exact_distance p q \<longrightarrow> \<not> distance p q \<le> 1 / 2))"
proof -
  from assms(2) obtain cur status keep where
    o: "optical_flow e s = Some (cur, status)" and
    b: "border_loop s cur status 0 = Some keep" and
    l: "length cur \<le> length keep" and
    s': "s' = s\<lparr>prev_pts := kept (prev_pts s) keep, cur_pts := kept cur keep,
             ids := kept (ids s) keep, track_cnt := kept (track_cnt s) keep\<rparr>"
    by (rule propagate_SomeD)
  obtain fwd_pts fwd_status where f: "flow_forward (flow_backend e) s = (fwd_pts, fwd_status)"
    by (cases "flow_forward (flow_backend e) s")
  obtain reverse_pts reverse_status where
    r: "flow_backend e (cur_img s) (prev_img s) fwd_pts (Some (prev_pts s)) 1 = (reverse_pts, reverse_status)"
    by (cases "flow_backend e (cur_img s) (prev_img s) fwd_pts (Some (prev_pts s)) 1")
  from assms(1) o f have c: "cur = fwd_pts" and
    rc: "reverse_check (flow_backend e) s fwd_pts fwd_status = Some status"
    by (auto simp: optical_flow_arms)
  from rc r have "flow_back_loop fwd_status reverse_status (prev_pts s) reverse_pts 0 = Some status"
    by (simp add: reverse_check_def)
  from flow_back_loop_Some [OF this] have
    ls: "length status = length fwd_status" and
    g: "\<And>i. i < length fwd_status \<Longrightarrow> status ! i =
          (if fwd_status ! i \<noteq> 0 \<and> reverse_status ! i \<noteq> 0 \<and>
              distance (prev_pts s ! i) (reverse_pts ! i) \<le> 1 / 2 then 1 else 0)"
    by auto
  from border_loop_Some [OF b] have
    lk: "length keep = length status" and
    k: "\<And>i. i < length status \<Longrightarrow> keep ! i =
      (if i < length cur \<and> status ! i \<noteq> 0 \<and> \<not> inBorder s (cur ! i) then 0 else status ! i)"
    by auto
  have flags: "\<forall>i<length fwd_status.
        (keep ! i \<noteq> 0) =
          (fwd_status ! i \<noteq> 0 \<and> reverse_status ! i \<noteq> 0 \<and>
           distance (prev_pts s ! i) (reverse_pts ! i) \<le> 1 / 2 \<and>
           (i < length cur \<longrightarrow> inBorder s (cur ! i)))"
    using g k ls by auto
  have far: "\<not> distance p q \<le> 1 / 2" if "1 / 2 + 1 / 2 ^ 20 \<le> exact_distance p q" for p q
    using distance_over [OF that] by simp
  have near: "distance p q \<le> 1 / 2" if "exact_distance p q \<le> 1 / 2 - 1 / 2 ^ 20" for p q
    using that by (rule distance_under)
  from flags far have rej: "\<forall>i<length fwd_status.
        1 / 2 + 1 / 2 ^ 20 \<le> exact_distance (prev_pts s ! i) (reverse_pts ! i) \<longrightarrow> keep ! i = 0"
    by blast
  have fin: "cur_pts s' = kept cur keep" "prev_pts s' = kept (prev_pts s) keep"
    "ids s' = kept (ids s) keep" "track_cnt s' = kept (track_cnt s) keep"
    by (simp_all add: s')
  have len: "length keep = length fwd_status" "length cur \<le> length fwd_status"
    using lk ls l by simp_all
  from f [folded c] r [folded c] len flags fin rej far near show ?thesis by blast
qed

theorem reverse_check_gate_witness:
  "FLOW_BACK ((ex_env (ex_lk (shift 1) ex_back))\<lparr>FLOW_BACK := 1\<rparr>) \<noteq> 0 \<and>
   propagate ((ex_env (ex_lk (shift 1) ex_back))\<lparr>FLOW_BACK := 1\<rparr>) ex_state =
     Some (ex_state\<lparr>prev_pts := [Point2f 5 5], cur_pts := [Point2f 6 5], ids := [7], track_cnt := [1]\<rparr>) \<and>
   distance (Point2f 5 5) (Point2f (21 / 4) 5) = 1 / 4 \<and>
   exact_distance (Point2f 1 5) (Point2f 2 5) = 1 \<and>
   \<not> distance (Point2f 1 5) (Point2f 2 5) \<le> 1 / 2"
proof -
  let ?e = "(ex_env (ex_lk (shift 1) ex_back))\<lparr>FLOW_BACK := 1\<rparr>"
  have fb: "FLOW_BACK ?e \<noteq> 0" by (simp add: ex_env_def)
  from reverse_check_gate [OF fb ex_propagate_gate]
  have "1 / 2 + 1 / 2 ^ 20 \<le> exact_distance (Point2f 1 5) (Point2f 2 5) \<longrightarrow>
      \<not> distance (Point2f 1 5) (Point2f 2 5) \<le> 1 / 2"
    by blast
  then have "\<not> distance (Point2f 1 5) (Point2f 2 5) \<le> 1 / 2"
    by (simp add: ex_exact_distance)
  with fb ex_propagate_gate ex_distance(1) ex_exact_distance(3) show ?thesis by blast
qed

text \<open>
  C3 as stated fails in both directions. Track 7: both passes succeed and the
  backward-mapped point \<open>(1/4 - 1/2^26, 4)\<close> is at the exact distance \<open>1/2 + 1/2^26\<close> from the
  previous point \<open>(3/4, 4)\<close>, yet the track is accepted: the \<^verbatim>\<open>float\<close> difference of the
  coordinates is 1/2. Track 8: both passes succeed and the backward-mapped point is the
  previous point, yet the track is removed: its forward position \<open>(9, 4)\<close> is outside the
  border of the 10 x 10 image.
\<close>

theorem reverse_check_counterexample:
  "prev_pts ex_edge = [Point2f (3 / 4) 4, Point2f 8 4] \<and> ids ex_edge = [7, 8] \<and>
   flow_forward (flow_backend ((ex_env (ex_lk (shift 1) ex_edge_back))\<lparr>FLOW_BACK := 1\<rparr>)) ex_edge =
     ([Point2f (7 / 4) 4, Point2f 9 4], [1, 1]) \<and>
   flow_backend ((ex_env (ex_lk (shift 1) ex_edge_back))\<lparr>FLOW_BACK := 1\<rparr>)
     (cur_img ex_edge) (prev_img ex_edge) [Point2f (7 / 4) 4, Point2f 9 4] (Some (prev_pts ex_edge)) 1 =
     ([Point2f (1 / 4 - 1 / 2 ^ 26) 4, Point2f 8 4], [1, 1]) \<and>
   exact_distance (Point2f (3 / 4) 4) (Point2f (1 / 4 - 1 / 2 ^ 26) 4) = 1 / 2 + 1 / 2 ^ 26 \<and>
   \<not> exact_distance (Point2f (3 / 4) 4) (Point2f (1 / 4 - 1 / 2 ^ 26) 4) \<le> 1 / 2 \<and>
   exact_distance (Point2f 8 4) (Point2f 8 4) = 0 \<and>
   map_option ids (propagate ((ex_env (ex_lk (shift 1) ex_edge_back))\<lparr>FLOW_BACK := 1\<rparr>) ex_edge) = Some [7]"
proof -
  have "prev_pts ex_edge = [Point2f (3 / 4) 4, Point2f 8 4]" "ids ex_edge = [7, 8]"
    by (simp_all add: ex_edge_def)
  moreover have "map_option ids (propagate ((ex_env (ex_lk (shift 1) ex_edge_back))\<lparr>FLOW_BACK := 1\<rparr>) ex_edge) =
      Some [7]"
    by (simp add: ex_propagate_edge)
  moreover have "\<not> exact_distance (Point2f (3 / 4) 4) (Point2f (1 / 4 - 1 / 2 ^ 26) 4) \<le> 1 / 2"
    unfolding ex_exact_distance(1) by simp
  ultimately show ?thesis
    using ex_edge_passes ex_exact_distance(1,2) by blast
qed

text \<open>
  C4 (as amended). In a state whose \<^verbatim>\<open>prev_pts\<close>, \<^verbatim>\<open>ids\<close> and \<^verbatim>\<open>track_cnt\<close> have the same
  length, \<^verbatim>\<open>removeOutliers\<close> returns; it changes these three vectors only, deleting the
  entries of every track whose id is in the set and keeping the others index-aligned and in
  their order; ids of the set that are not tracked change nothing, and a set disjoint from
  the tracked ids leaves the state unchanged.
\<close>

theorem removeOutliers_compacts:
  assumes "length (prev_pts s) = length (ids s)" and "length (track_cnt s) = length (ids s)"
  shows "\<exists>s'. removeOutliers R s = Some s' \<and>
     s' = s\<lparr>prev_pts := prev_pts s', ids := ids s', track_cnt := track_cnt s'\<rparr> \<and>
     ids s' = filter (\<lambda>i. i \<notin> R) (ids s) \<and>
     zip (ids s') (zip (prev_pts s') (track_cnt s')) =
       filter (\<lambda>t. fst t \<notin> R) (zip (ids s) (zip (prev_pts s) (track_cnt s))) \<and>
     length (prev_pts s') = length (ids s') \<and> length (track_cnt s') = length (ids s') \<and>
     (R \<inter> set (ids s) = {} \<longrightarrow> s' = s) \<and>
     (\<forall>D. D \<inter> set (ids s) = {} \<longrightarrow> removeOutliers (R \<union> D) s = removeOutliers R s)"
proof -
  let ?st = "outlier_status (ids s) R"
  let ?s' = "s\<lparr>prev_pts := kept (prev_pts s) ?st, ids := kept (ids s) ?st,
                track_cnt := kept (track_cnt s) ?st\<rparr>"
  have r: "removeOutliers R s = Some ?s'"
    using assms by (simp add: removeOutliers_def reduceVector_eq Let_def)
  have i: "ids ?s' = filter (\<lambda>i. i \<notin> R) (ids s)"
    by (simp add: kept_ids_outlier_status)
  have z: "zip (ids ?s') (zip (prev_pts ?s') (track_cnt ?s')) =
       filter (\<lambda>t. fst t \<notin> R) (zip (ids s) (zip (prev_pts s) (track_cnt s)))"
    using assms by (simp add: kept_ids_outlier_status kept_outlier_status filter_zip3)
  have l: "length (prev_pts ?s') = length (ids ?s')" "length (track_cnt ?s') = length (ids ?s')"
    using assms by (simp_all add: kept_ids_outlier_status kept_outlier_status length_filter_zip_fst)
  have d: "R \<inter> set (ids s) = {} \<longrightarrow> ?s' = s"
    using assms by (simp add: kept_outlier_status_disjoint)
  have a: "\<forall>D. D \<inter> set (ids s) = {} \<longrightarrow> removeOutliers (R \<union> D) s = removeOutliers R s"
    by (simp add: removeOutliers_def outlier_status_absent Let_def)
  from r i z l d a show ?thesis
    by (intro exI [of _ ?s']) simp
qed

theorem removeOutliers_compacts_witness:
  "length (prev_pts ex_state) = length (ids ex_state) \<and>
   length (track_cnt ex_state) = length (ids ex_state) \<and>
   removeOutliers {7, 99} ex_state =
     Some (ex_state\<lparr>prev_pts := [Point2f 1 5], ids := [8], track_cnt := [1]\<rparr>) \<and>
   removeOutliers {99} ex_state = Some ex_state"
proof -
  have l: "length (prev_pts ex_state) = length (ids ex_state)"
    "length (track_cnt ex_state) = length (ids ex_state)"
    by (simp_all add: ex_state_def)
  have d: "{99} \<inter> set (ids ex_state) = {}"
    by (simp add: ex_state_def)
  from removeOutliers_compacts [OF l, of "{99}"] d
  have a: "removeOutliers {99} ex_state = Some ex_state" by auto
  from removeOutliers_compacts [OF l, of "{7}"] d
  have "removeOutliers ({7} \<union> {99}) ex_state = removeOutliers {7} ex_state" by blast
  moreover have "removeOutliers {7} ex_state =
      Some (ex_state\<lparr>prev_pts := [Point2f 1 5], ids := [8], track_cnt := [1]\<rparr>)"
    by (simp add: removeOutliers_def reduceVector_eq Let_def ex_state_def)
  ultimately show ?thesis using l a by (simp add: insert_commute)
qed

text \<open>
  C4 as stated fails: \<^verbatim>\<open>cur_pts\<close> and \<^verbatim>\<open>pts_velocity\<close> are per-track vectors too, and after
  a frame with tracks 7 and 8 the removal of track 7 leaves both of its entries in them.
\<close>

theorem removeOutliers_counterexample:
  "map_option ids ex_removed = Some [8] \<and>
   map_option cur_pts ex_removed = Some [Point2f 6 5, Point2f 2 5] \<and>
   map_option pts_velocity ex_removed = Some [Point2f 0 0, Point2f 0 0]"
  using ex_removed_eval by simp

text \<open>
  C5. For id and point vectors of the same length, and timestamps that differ when the
  previous map is not empty, \<^verbatim>\<open>ptsVelocity\<close> returns; with a non-empty previous map the
  velocity of an id present in it is (current - previous position) / (cur_time - prev_time)
  and that of an id absent from it is (0, 0); with an empty previous map every returned
  velocity is (0, 0). In a frame of a session, every track created in the frame (its id
  is at or above the counter before the frame) is in the report with an observation of
  camera 0, and all its observations have velocity (0, 0).
\<close>

theorem ptsVelocity_rule:
  "(length idv = length pts \<longrightarrow> (prev_id_pts \<noteq> Map.empty \<longrightarrow> cur_time s \<noteq> prev_time s) \<longrightarrow>
      (\<exists>velocity cur_id_pts.
         ptsVelocity s idv pts prev_id_pts = Some (velocity, cur_id_pts) \<and>
         (prev_id_pts \<noteq> Map.empty \<longrightarrow>
            length velocity = length idv \<and>
            (\<forall>i<length idv. velocity ! i =
               (case prev_id_pts (idv ! i) of
                  Some q \<Rightarrow>
                    Point2f ((px (pts ! i) - px q) / (cur_time s - prev_time s))
                            ((py (pts ! i) - py q) / (cur_time s - prev_time s))
                | None \<Rightarrow> Point2f 0 0))) \<and>
         (prev_id_pts = Map.empty \<longrightarrow>
            length velocity = length (cur_pts s) \<and> (\<forall>v\<in>set velocity. v = Point2f 0 0)))) \<and>
   ((\<forall>xs. mset (std_sort e xs) = mset xs) \<longrightarrow> reachable e s \<longrightarrow>
    trackImage e t img img1 s = Some (ff, s') \<longrightarrow>
      (\<forall>j. n_id s \<le> j \<and> j < n_id s' \<longrightarrow>
         j \<in> set (ids s') \<and> j \<notin> set (ids s) \<and>
         (\<exists>obs. ff j = Some obs \<and> (\<exists>v. (0, v) \<in> set obs) \<and>
            (\<forall>ob\<in>set obs. snd ob ! 5 = 0 \<and> snd ob ! 6 = 0))))"
proof (rule conjI; intro impI allI)
  assume "length idv = length pts" "prev_id_pts \<noteq> Map.empty \<longrightarrow> cur_time s \<noteq> prev_time s"
  then show "\<exists>velocity cur_id_pts.
         ptsVelocity s idv pts prev_id_pts = Some (velocity, cur_id_pts) \<and>
         (prev_id_pts \<noteq> Map.empty \<longrightarrow>
            length velocity = length idv \<and>
            (\<forall>i<length idv. velocity ! i =
               (case prev_id_pts (idv ! i) of
                  Some q \<Rightarrow>
                    Point2f ((px (pts ! i) - px q) / (cur_time s - prev_time s))
                            ((py (pts ! i) - py q) / (cur_time s - prev_time s))
                | None \<Rightarrow> Point2f 0 0))) \<and>
         (prev_id_pts = Map.empty \<longrightarrow>
            length velocity = length (cur_pts s) \<and> (\<forall>v\<in>set velocity. v = Point2f 0 0))"
    by (intro ptsVelocity_total) blast+
next
  fix j
  assume p: "\<forall>xs. mset (std_sort e xs) = mset xs" and r: "reachable e s" and
    tr: "trackImage e t img img1 s = Some (ff, s')" and j: "n_id s \<le> j \<and> j < n_id s'"
  from reachable_ids_below_counter [OF p r] have
    b: "\<forall>i\<in>set (ids s). i < n_id s" "\<forall>i\<in>dom (prev_un_pts_map s). i < n_id s"
    "\<forall>i\<in>dom (prev_un_right_pts_map s). i < n_id s"
    by (simp_all add: ids_below_counter_def)
  from b(1) j have "j \<notin> set (ids s)" by auto
  with birth_velocity_zero [OF b(2,3) tr] j show
    "j \<in> set (ids s') \<and> j \<notin> set (ids s) \<and>
         (\<exists>obs. ff j = Some obs \<and> (\<exists>v. (0, v) \<in> set obs) \<and>
            (\<forall>ob\<in>set obs. snd ob ! 5 = 0 \<and> snd ob ! 6 = 0))"
    by blast
qed

theorem ptsVelocity_rule_witness:
  "ptsVelocity ex_timed [7, 9] [Point2f (52 / 100) (1 / 2), Point2f (1 / 5) (1 / 2)]
       [7 \<mapsto> Point2f (1 / 2) (1 / 2)] =
     Some ([Point2f (1 / 5) 0, Point2f 0 0],
           [7 \<mapsto> Point2f (52 / 100) (1 / 2), 9 \<mapsto> Point2f (1 / 5) (1 / 2)]) \<and>
   map_option fst (ptsVelocity ex_timed [7, 9] [Point2f (52 / 100) (1 / 2), Point2f (1 / 5) (1 / 2)] Map.empty) =
     Some [Point2f 0 0, Point2f 0 0] \<and>
   reachable ex_detect_env ex_first \<and> n_id ex_first = 2 \<and>
   map_option fst (trackImage ex_detect_env 2 ex_img ex_no_img ex_first) =
     Some [0 \<mapsto> [(0, [2 / 5, 3 / 10, 1, 4, 3, 1 / 10, 0])],
           1 \<mapsto> [(0, [4 / 5, 7 / 10, 1, 8, 7, 1 / 10, 0])],
           2 \<mapsto> [(0, [3 / 10, 3 / 10, 1, 3, 3, 0, 0])],
           3 \<mapsto> [(0, [7 / 10, 7 / 10, 1, 7, 7, 0, 0])]]"
proof -
  let ?pts = "[Point2f (52 / 100) (1 / 2), Point2f (1 / 5) (1 / 2)]"
  have l: "length [7, 9 :: int] = length ?pts" by simp
  have a: "ptsVelocity ex_timed [7, 9] ?pts [7 \<mapsto> Point2f (1 / 2) (1 / 2)] =
     Some ([Point2f (1 / 5) 0, Point2f 0 0],
           [7 \<mapsto> Point2f (52 / 100) (1 / 2), 9 \<mapsto> Point2f (1 / 5) (1 / 2)])"
    by (simp add: ptsVelocity_def insert_loop.simps velocity_loop.simps ex_timed_def)
  from ptsVelocity_rule [where idv = "[7, 9]" and pts = ?pts and prev_id_pts = Map.empty and s = ex_timed] l
  obtain velocity cur_id_pts where
    p: "ptsVelocity ex_timed [7, 9] ?pts Map.empty = Some (velocity, cur_id_pts)" and
    n: "length velocity = length (cur_pts ex_timed)" and z: "\<forall>v\<in>set velocity. v = Point2f 0 0"
    by blast
  from n have "length velocity = 2" by (simp add: ex_timed_def)
  then obtain v w where "velocity = [v, w]"
    by (cases velocity; cases "tl velocity") auto
  with z have v: "velocity = [Point2f 0 0, Point2f 0 0]" by simp
  from ex_second_report obtain ff s' where
    t: "trackImage ex_detect_env 2 ex_img ex_no_img ex_first = Some (ff, s')" and n': "n_id s' = 4"
    by auto
  from ex_first_reachable have r: "reachable ex_detect_env ex_first" and n2: "n_id ex_first = 2"
    by simp_all
  from ptsVelocity_rule [where e = ex_detect_env and s = ex_first and t = 2 and img = ex_img
      and ?img1.0 = ex_no_img and ff = ff and s' = s'] ex_detect_env_sort r t n2 n'
  have "3 \<in> set (ids s')" by simp
  with p a v r n2 ex_second_report show ?thesis by simp
qed

text \<open>
  C6. The stereo stage leaves the primary tracks as they are: the ids, ages, pixel
  positions, normalised positions and velocities of the left camera, the previous points
  and the id counter are unchanged, and it only produces ids of primary tracks. In the
  report of a frame, the ids with an observation of camera 1 are a subset of the ids with
  an observation of camera 0, which are the ids of the live tracks.
\<close>

theorem stereo_additive:
  "(stereo_stage e img1 s = Some s' \<longrightarrow>
      ids s' = ids s \<and> track_cnt s' = track_cnt s \<and> cur_pts s' = cur_pts s \<and>
      cur_un_pts s' = cur_un_pts s \<and> pts_velocity s' = pts_velocity s \<and>
      prev_pts s' = prev_pts s \<and> cur_un_pts_map s' = cur_un_pts_map s \<and> n_id s' = n_id s \<and>
      set (ids_right s') \<subseteq> set (ids s')) \<and>
   (trackImage e t img img1 s = Some (ff, s') \<longrightarrow>
      camera_ids 1 ff \<subseteq> camera_ids 0 ff \<and> camera_ids 0 ff = set (ids s'))"
proof (rule conjI; rule impI)
  assume "stereo_stage e img1 s = Some s'"
  then obtain ir rp ur rv rm where
    s': "s' = s\<lparr>ids_right := ir, cur_right_pts := rp, cur_un_right_pts := ur,
             right_pts_velocity := rv, cur_un_right_pts_map := rm, prev_un_right_pts_map := rm\<rparr>" and
    sub: "subseq ir (ids s)"
    by (rule stereo_stage_explicit)
  from subseq_set_mono [OF sub] show
    "ids s' = ids s \<and> track_cnt s' = track_cnt s \<and> cur_pts s' = cur_pts s \<and>
      cur_un_pts s' = cur_un_pts s \<and> pts_velocity s' = pts_velocity s \<and>
      prev_pts s' = prev_pts s \<and> cur_un_pts_map s' = cur_un_pts_map s \<and> n_id s' = n_id s \<and>
      set (ids_right s') \<subseteq> set (ids s')"
    by (simp add: s')
next
  assume "trackImage e t img img1 s = Some (ff, s')"
  then obtain s1 s2 s3 where
    st: "(if \<not> Mat_empty img1 \<and> stereo_cam s2 then stereo_stage e img1 s2 else Some s2) = Some s3" and
    rf: "roll_forward s3 = Some s'" and
    br: "build_report (\<not> Mat_empty img1 \<and> stereo_cam s') s' = Some ff"
    by (rule trackImage_SomeD)
  from rf obtain lm where
    s': "s' = s3\<lparr>prev_img := cur_img s3, prev_pts := cur_pts s3, prev_un_pts := cur_un_pts s3,
             prev_un_pts_map := cur_un_pts_map s3, prev_time := cur_time s3,
             hasPrediction := False, prevLeftPtsMap := lm\<rparr>"
    by (rule roll_forward_explicit)
  have r: "\<not> Mat_empty img1 \<and> stereo_cam s' \<longrightarrow> set (ids_right s') \<subseteq> set (ids s')"
  proof
    assume c: "\<not> Mat_empty img1 \<and> stereo_cam s'"
    have "stereo_cam s2"
    proof (rule ccontr)
      assume "\<not> stereo_cam s2"
      with st have "s3 = s2" by simp
      with c s' \<open>\<not> stereo_cam s2\<close> show False by simp
    qed
    with c st have "stereo_stage e img1 s2 = Some s3" by simp
    then obtain ir rp ur rv rm where
      s3: "s3 = s2\<lparr>ids_right := ir, cur_right_pts := rp, cur_un_right_pts := ur,
             right_pts_velocity := rv, cur_un_right_pts_map := rm, prev_un_right_pts_map := rm\<rparr>" and
      sub: "subseq ir (ids s2)"
      by (rule stereo_stage_explicit)
    from subseq_set_mono [OF sub] show "set (ids_right s') \<subseteq> set (ids s')"
      by (simp add: s' s3)
  qed
  from build_report_camera_ids [OF br] r
  show "camera_ids 1 ff \<subseteq> camera_ids 0 ff \<and> camera_ids 0 ff = set (ids s')"
    by (auto split: if_splits)
qed

theorem stereo_additive_witness:
  "map_option fst (trackImage ex_stereo_env 1 ex_img ex_img ex_stereo) =
     Some [8 \<mapsto> [(0, [1 / 5, 1 / 2, 1, 2, 5, 0, 0])],
           7 \<mapsto> [(0, [1 / 2, 1 / 2, 1, 5, 5, 0, 0]), (1, [1 / 2, 1 / 2, 1, 5, 5, 0, 0])]] \<and>
   camera_ids 1 [8 \<mapsto> [(0, [1 / 5, 1 / 2, 1, 2, 5, 0, 0])],
           7 \<mapsto> [(0, [1 / 2, 1 / 2, 1, 5, 5, 0, 0]), (1, [1 / 2, 1 / 2, 1, 5, 5, 0, 0 :: real])]]
     \<subseteq> {7, 8}"
proof -
  let ?r = "[8 \<mapsto> [(0, [1 / 5, 1 / 2, 1, 2, 5, 0, 0])],
           7 \<mapsto> [(0 :: int, [1 / 2, 1 / 2, 1, 5, 5, 0, 0]), (1, [1 / 2, 1 / 2, 1, 5, 5, 0, 0 :: real])]]"
  from ex_trackImage_stereo obtain ff s' where
    t: "trackImage ex_stereo_env 1 ex_img ex_img ex_stereo = Some (ff, s')" and
    f: "ff = ?r" and i: "ids s' = [7, 8]"
    by auto
  from stereo_additive [of ex_stereo_env ex_img ex_stereo s' 1 ex_img ff] t
  have "camera_ids 1 ff \<subseteq> camera_ids 0 ff" "camera_ids 0 ff = set (ids s')" by blast+
  with f i have "camera_ids 1 ?r \<subseteq> {7, 8}" by auto
  with ex_trackImage_stereo show ?thesis by blast
qed

text \<open>
  C7. On the CPU and on the CUDA path: with a staged prediction, the forward pass is the
  backend call at level argument 1 seeded with \<^verbatim>\<open>predict_pts\<close>; if and only if fewer than 10
  of its points succeed, the result is instead that of the backend call at level argument
  3 without seed; without a staged prediction it is that unseeded call at level argument
  3. The points of \<^verbatim>\<open>optical_flow\<close> are those of this forward pass.
\<close>

theorem prediction_fallback:
  "(let lk = flow_backend e;
        fast = lk (prev_img s) (cur_img s) (prev_pts s) (Some (predict_pts s)) 1;
        full = lk (prev_img s) (cur_img s) (prev_pts s) None 3
    in flow_forward lk s =
         (if hasPrediction s then
            (if length (filter (\<lambda>st. st \<noteq> 0) (snd fast)) < 10 then full else fast)
          else full) \<and>
       (FLOW_BACK e = 0 \<longrightarrow> optical_flow e s = Some (flow_forward lk s)) \<and>
       (\<forall>cur status. optical_flow e s = Some (cur, status) \<longrightarrow> cur = fst (flow_forward lk s)))"
proof -
  have a: "flow_forward lk s =
      (if hasPrediction s then
         (if length (filter (\<lambda>st. st \<noteq> 0)
               (snd (lk (prev_img s) (cur_img s) (prev_pts s) (Some (predict_pts s)) 1))) < 10
          then lk (prev_img s) (cur_img s) (prev_pts s) None 3
          else lk (prev_img s) (cur_img s) (prev_pts s) (Some (predict_pts s)) 1)
       else lk (prev_img s) (cur_img s) (prev_pts s) None 3)" for lk
    by (simp add: flow_forward_def count_succ_filter split: prod.splits)
  have b: "FLOW_BACK e = 0 \<longrightarrow> optical_flow e s = Some (flow_forward (flow_backend e) s)"
    by (simp add: optical_flow_arms split: prod.splits)
  have c: "\<forall>cur status. optical_flow e s = Some (cur, status) \<longrightarrow> cur = fst (flow_forward (flow_backend e) s)"
    by (auto simp: optical_flow_arms split: prod.splits if_splits)
  from a [of "flow_backend e"] b c show ?thesis
    unfolding Let_def by blast
qed

theorem prediction_fallback_witness:
  "optical_flow (ex_env (ex_lk (shift 1) id)) ex_predicted = Some ([Point2f 6 5, Point2f 2 5], [1, 1]) \<and>
   optical_flow (ex_env (ex_lk (shift 1) id)) ex_predicted10 =
     Some (replicate 10 (Point2f 4 5), replicate 10 1) \<and>
   optical_flow (ex_env (ex_lk (shift 1) id)) ex_state = Some ([Point2f 6 5, Point2f 2 5], [1, 1])"
proof -
  let ?e = "ex_env (ex_lk (shift 1) id)"
  have fb: "FLOW_BACK ?e = 0" by (simp add: ex_env_def)
  have lk: "flow_backend ?e = ex_lk (shift 1) id" by (simp add: flow_backend_def ex_env_def)
  have "optical_flow ?e ex_predicted = Some ([Point2f 6 5, Point2f 2 5], [1, 1])"
    using prediction_fallback [of ?e ex_predicted] fb
    by (simp add: Let_def lk ex_lk_def ex_predicted_def ex_state_def FeatureTracker_def shift_def)
  moreover have "optical_flow ?e ex_predicted10 = Some (replicate 10 (Point2f 4 5), replicate 10 1)"
    using prediction_fallback [of ?e ex_predicted10] fb
    by (simp add: Let_def lk ex_lk_def ex_predicted10_def ex_state_def FeatureTracker_def shift_def)
  moreover have "optical_flow ?e ex_state = Some ([Point2f 6 5, Point2f 2 5], [1, 1])"
    using prediction_fallback [of ?e ex_state] fb
    by (simp add: Let_def lk ex_lk_def ex_state_def FeatureTracker_def shift_def)
  ultimately show ?thesis by blast
qed

text \<open>
  C8. With a \<^verbatim>\<open>std::sort\<close> that returns a permutation of its input, in every state a tracker
  reaches by calls that return, no two live tracks share an id and every live id is below
  the id counter. A frame keeps a selection of the old ids and appends the ids
  \<open>n_id, n_id + 1, ...\<close> of the new tracks, moving the counter past them; no other public
  member changes the counter or adds an id. (An increment of the counter beyond the range
  of \<^verbatim>\<open>int\<close> has no value in the model.)
\<close>

theorem ids_never_reused:
  assumes "\<forall>xs. mset (std_sort e xs) = mset xs" and "reachable e s"
  shows "distinct (ids s) \<and> (\<forall>i\<in>set (ids s). 0 \<le> i \<and> i < n_id s) \<and>
    (\<forall>t img img1 ff s'. trackImage e t img img1 s = Some (ff, s') \<longrightarrow>
       (\<exists>old k. ids s' = old @ map (\<lambda>j. n_id s + int j) [0..<k] \<and> n_id s' = n_id s + int k \<and>
          set old \<subseteq> set (ids s))) \<and>
    (\<forall>R s'. removeOutliers R s = Some s' \<longrightarrow> n_id s' = n_id s \<and> set (ids s') \<subseteq> set (ids s)) \<and>
    (\<forall>p s'. setPrediction p s = Some s' \<longrightarrow> n_id s' = n_id s \<and> ids s' = ids s) \<and>
    (\<forall>cams. n_id (readIntrinsicParameter cams s) = n_id s \<and> ids (readIntrinsicParameter cams s) = ids s)"
proof -
  from reachable_ids_below_counter [OF assms] have
    a: "distinct (ids s) \<and> (\<forall>i\<in>set (ids s). 0 \<le> i \<and> i < n_id s)"
    by (simp add: ids_below_counter_def)
  have b: "\<exists>old k. ids s' = old @ map (\<lambda>j. n_id s + int j) [0..<k] \<and> n_id s' = n_id s + int k \<and>
          set old \<subseteq> set (ids s)" if "trackImage e t img img1 s = Some (ff, s')" for t img img1 ff s'
  proof -
    from that obtain old k where
      "ids s' = old @ map (\<lambda>j. n_id s + int j) [0..<k]" "n_id s' = n_id s + int k"
      "(\<forall>xs. mset (std_sort e xs) = mset xs) \<longrightarrow> set old \<subseteq> set (ids s) \<and> (distinct (ids s) \<longrightarrow> distinct old)"
      by (rule trackImage_explicit)
    with assms(1) show ?thesis by blast
  qed
  have c: "n_id s' = n_id s \<and> set (ids s') \<subseteq> set (ids s)" if "removeOutliers R s = Some s'" for R s'
  proof -
    from that obtain a c d where
      s': "s' = s\<lparr>prev_pts := a, ids := c, track_cnt := d\<rparr>" and sub: "subseq c (ids s)"
      by (rule removeOutliers_explicit)
    from subseq_set_mono [OF sub] show ?thesis by (simp add: s')
  qed
  have d: "n_id s' = n_id s \<and> ids s' = ids s" if "setPrediction p s = Some s'" for p s'
  proof -
    from that obtain pp pd where
      "s' = s\<lparr>hasPrediction := True, predict_pts := pp, predict_pts_debug := pd\<rparr>"
      by (rule setPrediction_explicit)
    then show ?thesis by simp
  qed
  have e: "n_id (readIntrinsicParameter cams s) = n_id s \<and> ids (readIntrinsicParameter cams s) = ids s"
    for cams
    by (simp add: readIntrinsicParameter_def Let_def)
  from a b c d e show ?thesis by blast
qed

theorem ids_never_reused_witness:
  "(\<forall>xs. mset (std_sort ex_detect_env xs) = mset xs) \<and> reachable ex_detect_env ex_first \<and>
   ids ex_first = [0, 1] \<and> n_id ex_first = 2 \<and>
   map_option ids (map_option snd (trackImage ex_detect_env 2 ex_img ex_no_img ex_first)) =
     Some [0, 1, 2, 3]"
proof -
  have p: "\<forall>xs. mset (std_sort ex_detect_env xs) = mset xs"
    by (simp add: ex_detect_env_def ex_env_def)
  let ?s0 = "readIntrinsicParameter [ex_camera] (FeatureTracker 0 0 0 0)"
  from ex_first_eval obtain ff s' where
    t: "trackImage ex_detect_env 1 ex_img ex_no_img ?s0 = Some (ff, s')" and
    i: "ids s' = [0, 1]" and n: "n_id s' = 2"
    by auto
  from t have f: "ex_first = s'" by (simp add: ex_first_def)
  have "reachable ex_detect_env ?s0"
    by (intro reachable.calibrate reachable.construct)
  from this t have r: "reachable ex_detect_env ex_first"
    unfolding f by (rule reachable.track)
  from ids_never_reused [OF p r] have "distinct (ids ex_first)" by blast
  with p r i n f ex_second_eval show ?thesis by simp
qed

text \<open>
  C9. With an empty previous map, \<^verbatim>\<open>ptsVelocity\<close> returns one (0, 0) per element of the member
  \<^verbatim>\<open>cur_pts\<close>, whatever the length of its argument \<^verbatim>\<open>pts\<close>. In a stereo frame,
  \<^verbatim>\<open>ids_right\<close> is a selection of \<^verbatim>\<open>ids\<close>, which is as long as \<^verbatim>\<open>cur_pts\<close>; so
  \<^verbatim>\<open>right_pts_velocity\<close> is at least as long as \<^verbatim>\<open>ids_right\<close>, also when the previous right map
  is empty, and the assembly of the report reads no vector out of bounds.
\<close>

theorem right_velocity_in_bounds:
  "(ptsVelocity s idv pts Map.empty = Some (velocity, cur_id_pts) \<longrightarrow>
      velocity = replicate (length (cur_pts s)) (Point2f 0 0)) \<and>
   (update_tracks e s = Some s1 \<longrightarrow> update_velocity s1 = Some s2 \<longrightarrow>
    stereo_stage e img1 s2 = Some s3 \<longrightarrow> roll_forward s3 = Some s4 \<longrightarrow>
      set (ids_right s4) \<subseteq> set (ids s4) \<and>
      length (ids_right s4) \<le> length (ids s4) \<and> length (ids s4) = length (cur_pts s4) \<and>
      length (ids_right s4) \<le> length (right_pts_velocity s4) \<and>
      (prev_un_right_pts_map s2 = Map.empty \<longrightarrow>
         right_pts_velocity s4 = replicate (length (cur_pts s4)) (Point2f 0 0)) \<and>
      (\<exists>ff. build_report True s4 = Some ff))"
proof (rule conjI; intro impI)
  assume "ptsVelocity s idv pts Map.empty = Some (velocity, cur_id_pts)"
  from ptsVelocity_SomeD [OF this] show "velocity = replicate (length (cur_pts s)) (Point2f 0 0)"
    by simp
next
  assume ut: "update_tracks e s = Some s1" and uv: "update_velocity s1 = Some s2" and
    ss: "stereo_stage e img1 s2 = Some s3" and rf: "roll_forward s3 = Some s4"
  from ut obtain a m np acc where
    s1: "s1 = s\<lparr>mask_m := m, n_pts := np, prev_pts := a,
            cur_pts := map (\<lambda>t. fst (snd t)) acc @ np,
            ids := map (\<lambda>t. snd (snd t)) acc @ map (\<lambda>k. n_id s + int k) [0..<length np],
            track_cnt := map fst acc @ replicate (length np) 1,
            n_id := n_id s + int (length np)\<rparr>"
    by (rule update_tracks_explicit)
  have l1: "length (ids s1) = length (cur_pts s1)" by (simp add: s1)
  from uv obtain un vel mp where
    s2: "s2 = s1\<lparr>cur_un_pts := un, pts_velocity := vel, cur_un_pts_map := mp\<rparr>" and
    lu: "length un = length (cur_pts s1)" and
    v: "vel = (if prev_un_pts_map s1 \<noteq> Map.empty then
          map (\<lambda>k. rule_velocity (prev_un_pts_map s1) (cur_time s1 - prev_time s1) (ids s1 ! k) (un ! k))
            [0..<length un]
        else replicate (length (cur_pts s1)) (Point2f 0 0))"
    by (rule update_velocity_explicit)
  have lv: "length vel = length (cur_pts s1)" by (simp add: v lu)
  from ss obtain ir rp ur rv rm where
    s3: "s3 = s2\<lparr>ids_right := ir, cur_right_pts := rp, cur_un_right_pts := ur,
             right_pts_velocity := rv, cur_un_right_pts_map := rm, prev_un_right_pts_map := rm\<rparr>" and
    sub: "subseq ir (ids s2)" and iu: "length ir \<le> length ur" and ur: "length ur = length rp" and
    rv: "rv = (if prev_un_right_pts_map s2 \<noteq> Map.empty then
          map (\<lambda>k. rule_velocity (prev_un_right_pts_map s2) (cur_time s2 - prev_time s2) (ir ! k) (ur ! k))
            [0..<length ur]
        else replicate (length (cur_pts s2)) (Point2f 0 0))"
    by (rule stereo_stage_explicit)
  from rf obtain lm where
    s4: "s4 = s3\<lparr>prev_img := cur_img s3, prev_pts := cur_pts s3, prev_un_pts := cur_un_pts s3,
             prev_un_pts_map := cur_un_pts_map s3, prev_time := cur_time s3,
             hasPrediction := False, prevLeftPtsMap := lm\<rparr>"
    by (rule roll_forward_explicit)
  from sub have li: "length ir \<le> length (ids s2)" by (rule list_emb_length)
  have i2: "ids s2 = ids s1" "cur_pts s2 = cur_pts s1" by (simp_all add: s2)
  have lr: "length ir \<le> length rv"
    using iu li l1 by (simp add: rv i2)
  have f4: "ids s4 = ids s1" "cur_pts s4 = cur_pts s1" "ids_right s4 = ir" "right_pts_velocity s4 = rv"
    "cur_un_pts s4 = un" "pts_velocity s4 = vel" "cur_un_right_pts s4 = ur" "cur_right_pts s4 = rp"
    by (simp_all add: s4 s3 s2)
  have "\<exists>ff. build_report True s4 = Some ff"
    by (rule build_report_total) (simp_all add: f4 l1 lu lv iu ur [symmetric] lr)
  moreover have "set (ids_right s4) \<subseteq> set (ids s4)"
    using subseq_set_mono [OF sub] by (simp add: f4 i2)
  moreover have "prev_un_right_pts_map s2 = Map.empty \<longrightarrow>
         right_pts_velocity s4 = replicate (length (cur_pts s4)) (Point2f 0 0)"
    by (simp add: f4 rv i2)
  ultimately show "set (ids_right s4) \<subseteq> set (ids s4) \<and>
      length (ids_right s4) \<le> length (ids s4) \<and> length (ids s4) = length (cur_pts s4) \<and>
      length (ids_right s4) \<le> length (right_pts_velocity s4) \<and>
      (prev_un_right_pts_map s2 = Map.empty \<longrightarrow>
         right_pts_velocity s4 = replicate (length (cur_pts s4)) (Point2f 0 0)) \<and>
      (\<exists>ff. build_report True s4 = Some ff)"
    using li lr l1 by (simp add: f4 i2)
qed

theorem right_velocity_in_bounds_witness:
  "map_option ids_right (map_option snd (trackImage ex_stereo_env 1 ex_img ex_img ex_stereo)) = Some [7] \<and>
   map_option right_pts_velocity (map_option snd (trackImage ex_stereo_env 1 ex_img ex_img ex_stereo)) =
     Some [Point2f 0 0, Point2f 0 0] \<and>
   prev_un_right_pts_map ex_stereo = Map.empty"
proof -
  from ex_trackImage_stereo obtain ff s4 where
    t: "trackImage ex_stereo_env 1 ex_img ex_img ex_stereo = Some (ff, s4)" and
    ir: "ids_right s4 = [7]"
    by auto
  let ?s0 = "ex_stereo\<lparr>cur_time := 1, cur_img := ex_img, row := rows ex_img, col := cols ex_img, cur_pts := []\<rparr>"
  from t obtain s1 s2 s3 where
    ut: "update_tracks ex_stereo_env ?s0 = Some s1" and
    uv: "update_velocity s1 = Some s2" and
    st: "(if \<not> Mat_empty ex_img \<and> stereo_cam s2 then stereo_stage ex_stereo_env ex_img s2 else Some s2) = Some s3" and
    rf: "roll_forward s3 = Some s4"
    by (rule trackImage_SomeD)
  from ut obtain a m np acc where
    s1: "s1 = ?s0\<lparr>mask_m := m, n_pts := np, prev_pts := a,
            cur_pts := map (\<lambda>t. fst (snd t)) acc @ np,
            ids := map (\<lambda>t. snd (snd t)) acc @ map (\<lambda>k. n_id ?s0 + int k) [0..<length np],
            track_cnt := map fst acc @ replicate (length np) 1,
            n_id := n_id ?s0 + int (length np)\<rparr>"
    by (rule update_tracks_explicit)
  from uv obtain un vel mp where
    s2: "s2 = s1\<lparr>cur_un_pts := un, pts_velocity := vel, cur_un_pts_map := mp\<rparr>"
    by (rule update_velocity_explicit)
  have c: "\<not> Mat_empty ex_img \<and> stereo_cam s2"
    by (simp add: s2 s1 ex_stereo_def ex_img_def Mat_empty_def)
  have e: "prev_un_right_pts_map s2 = Map.empty"
    by (simp add: s2 s1 ex_stereo_def ex_state_def FeatureTracker_def)
  from c st have ss: "stereo_stage ex_stereo_env ex_img s2 = Some s3" by simp
  from right_velocity_in_bounds [where e = ex_stereo_env and s = ?s0 and ?s1.0 = s1 and ?s2.0 = s2
      and ?img1.0 = ex_img and ?s3.0 = s3 and ?s4.0 = s4] ut uv ss rf e
  have "length (ids_right s4) \<le> length (right_pts_velocity s4)"
    "right_pts_velocity s4 = replicate (length (cur_pts s4)) (Point2f 0 0)"
    by blast+
  with ex_trackImage_stereo show ?thesis
    by (simp add: ex_stereo_def ex_state_def FeatureTracker_def)
qed

text \<open>
  C10. The arms of \<^verbatim>\<open>trackImage\<close> guarded by \<^verbatim>\<open>USE_VPI\<close> are dead: the flow dispatch always
  takes the CPU or the CUDA arm and the detector dispatch always takes the CPU or the GPU
  arm, and two runs that differ only in \<^verbatim>\<open>USE_VPI\<close> return the same report and the same state.
\<close>

theorem USE_VPI_dead:
  "trackImage (e\<lparr>USE_VPI := v\<rparr>) t img img1 s = trackImage e t img img1 s \<and>
   optical_flow e s =
     (let (cur, status) = flow_forward (flow_backend e) s
      in if FLOW_BACK e \<noteq> 0 then map_option (Pair cur) (reverse_check (flow_backend e) s cur status)
         else Some (cur, status)) \<and>
   detect e s =
     (if MAX_CNT e - int (length (cur_pts s)) > 0 then
        (if USE_GPU e = 0 then goodFeaturesToTrack e else gpuCornersDetector e)
          (cur_img s) (MAX_CNT e - int (length (cur_pts s))) (MIN_DIST e) (mask_m s)
      else [])"
proof -
  have "trackImage (e\<lparr>USE_VPI := v\<rparr>) t img img1 s = trackImage e t img img1 s"
    by (simp add: trackImage_def update_tracks_USE_VPI stereo_stage_USE_VPI cong: if_cong)
  moreover have "optical_flow e s =
     (let (cur, status) = flow_forward (flow_backend e) s
      in if FLOW_BACK e \<noteq> 0 then map_option (Pair cur) (reverse_check (flow_backend e) s cur status)
         else Some (cur, status))"
    by (rule optical_flow_arms)
  ultimately show ?thesis using detect_arms by blast
qed

theorem USE_VPI_dead_witness:
  "map_option fst (trackImage ((ex_env (ex_lk (shift 1) id))\<lparr>USE_VPI := 1\<rparr>) 1 ex_img ex_no_img ex_mono) =
     Some [7 \<mapsto> [(0, [3 / 5, 1 / 2, 1, 6, 5, 0, 0])], 8 \<mapsto> [(0, [1 / 5, 1 / 2, 1, 2, 5, 0, 0])]] \<and>
   USE_VPI (ex_env (ex_lk (shift 1) id)) = 0"
proof -
  from USE_VPI_dead [where e = "ex_env (ex_lk (shift 1) id)" and v = 1 and t = 1 and img = ex_img
      and ?img1.0 = ex_no_img and s = ex_mono]
  have "trackImage ((ex_env (ex_lk (shift 1) id))\<lparr>USE_VPI := 1\<rparr>) 1 ex_img ex_no_img ex_mono =
    trackImage (ex_env (ex_lk (shift 1) id)) 1 ex_img ex_no_img ex_mono"
    by blast
  with ex_trackImage_mono show ?thesis by (simp add: ex_env_def)
qed

end
